theory Spec2Isabelle
  imports Main "HOL-Library.Word"
begin

unbundle bit_operations_syntax

section \<open>JavaScript values\<close>

text \<open>
  A Node \<open>Buffer\<close> is a list of bytes.  JavaScript numbers are IEEE doubles; every number
  the codec computes on the paths modelled here is integer valued, so a number is the
  integer it denotes (\<open>Fin\<close>), \<open>NaN\<close> or an infinity (\<open>Inf True\<close> is \<open>-Infinity\<close>).
  The rounding of a double is written out where the source does arithmetic
  (\<open>to_double\<close>).  \<open>-0\<close> and \<open>0\<close> are not told apart.  A thrown exception is the
  \<open>Inl\<close> of a result.
\<close>

type_synonym byte = "8 word"
type_synonym buffer = "byte list"

datatype js_error = TypeError | RangeError | Error string | Unmodelled string

datatype jsnum = Fin int | NaN | Inf bool

definition andThen :: "js_error + 'a \<Rightarrow> ('a \<Rightarrow> js_error + 'b) \<Rightarrow> js_error + 'b" where
  "andThen m f = (case m of Inl e \<Rightarrow> Inl e | Inr x \<Rightarrow> f x)"

subsection \<open>Doubles on integers\<close>

function bit_length :: "int \<Rightarrow> nat" where
  "bit_length n = (if n \<le> 0 then 0 else Suc (bit_length (n div 2)))"
  by pat_completeness auto
termination
  by (relation "measure nat") auto

declare bit_length.simps [simp del]

text \<open>
  Round a non-negative integer to nearest, ties to even, on a 53-bit significand; a
  result of more than 1024 bits is an infinity.
\<close>

definition round_int :: "int \<Rightarrow> int" where
  "round_int a =
     (let e = bit_length a - 53 in
      if e = 0 then a
      else let q = a div 2 ^ e; r = a mod 2 ^ e; half = 2 ^ (e - 1) in
        (if half < r \<or> (r = half \<and> odd q) then q + 1 else q) * 2 ^ e)"

definition to_double :: "int \<Rightarrow> jsnum" where
  "to_double v =
     (let r = round_int \<bar>v\<bar> in
      if 1024 < bit_length r then Inf (v < 0) else Fin (if v < 0 then - r else r))"

fun js_add :: "jsnum \<Rightarrow> jsnum \<Rightarrow> jsnum" where
  "js_add (Fin a) (Fin b) = to_double (a + b)"
| "js_add NaN _ = NaN"
| "js_add _ NaN = NaN"
| "js_add (Inf s) (Inf t) = (if s = t then Inf s else NaN)"
| "js_add (Inf s) (Fin _) = Inf s"
| "js_add (Fin _) (Inf t) = Inf t"

fun js_mul :: "jsnum \<Rightarrow> jsnum \<Rightarrow> jsnum" where
  "js_mul (Fin a) (Fin b) = to_double (a * b)"
| "js_mul NaN _ = NaN"
| "js_mul _ NaN = NaN"
| "js_mul (Inf s) (Inf t) = Inf (s \<noteq> t)"
| "js_mul (Inf s) (Fin b) = (if b = 0 then NaN else Inf (s \<noteq> (b < 0)))"
| "js_mul (Fin a) (Inf t) = (if a = 0 then NaN else Inf (t \<noteq> (a < 0)))"

fun js_neg :: "jsnum \<Rightarrow> jsnum" where
  "js_neg (Fin a) = Fin (- a)"
| "js_neg NaN = NaN"
| "js_neg (Inf s) = Inf (\<not> s)"

subsection \<open>Decimal strings\<close>

definition digit_char :: "int \<Rightarrow> char" where
  "digit_char d = char_of (48 + d)"

function dec_nat :: "int \<Rightarrow> string" where
  "dec_nat n = (if n < 10 then [digit_char n] else dec_nat (n div 10) @ [digit_char (n mod 10)])"
  by pat_completeness auto
termination
  by (relation "measure nat") auto

declare dec_nat.simps [simp del]

definition dec_int :: "int \<Rightarrow> string" where
  "dec_int v = (if v < 0 then CHR ''-'' # dec_nat (- v) else dec_nat v)"

subsection \<open>\<open>Number.prototype.toString\<close> and \<open>toFixed\<close>\<close>

text \<open>
  \<open>Number::toString\<close> (ECMA-262) renders a positive number \<open>m\<close> as the digits of
  \<open>s * 10^(n-k)\<close> for the least \<open>k\<close> such that some \<open>k\<close>-digit \<open>s\<close> has
  \<open>s * 10^(n-k)\<close> round to \<open>m\<close>; among several \<open>s\<close> the one nearest to \<open>m\<close>, then the
  even one.  For an integer \<open>m\<close> only the two multiples of \<open>10^(n-k)\<close> around \<open>m\<close> can
  be nearest.  Up to 21 digits the result is written out in full, beyond in exponent
  form.  \<open>toFixed()\<close> with no fraction digits is the exact integer below \<open>10^21\<close>.
\<close>

definition pick_decimal :: "int \<Rightarrow> int \<Rightarrow> int option" where
  "pick_decimal m p =
     (let lo = p * (m div p); hi = lo + p;
          okl = (round_int lo = m); okh = (round_int hi = m)
      in if okl \<and> okh then
           (if m - lo < hi - m then Some lo
            else if hi - m < m - lo then Some hi
            else if even (m div p) then Some lo else Some hi)
         else if okl then Some lo
         else if okh then Some hi
         else None)"

fun first_decimal :: "int \<Rightarrow> int list \<Rightarrow> int" where
  "first_decimal m [] = m"
| "first_decimal m (p # ps) =
     (case pick_decimal m p of Some c \<Rightarrow> c | None \<Rightarrow> first_decimal m ps)"

definition shortest_decimal :: "int \<Rightarrow> int" where
  "shortest_decimal m =
     first_decimal m (map (\<lambda>k. 10 ^ (length (dec_nat m) - k)) [1..<Suc (length (dec_nat m))])"

definition strip_zeros :: "string \<Rightarrow> string" where
  "strip_zeros s = rev (dropWhile (\<lambda>c. c = CHR ''0'') (rev s))"

definition nat_toString :: "int \<Rightarrow> string" where
  "nat_toString m =
     (if m = 0 then ''0''
      else let ds = dec_nat (shortest_decimal m); n = length ds; s = strip_zeros ds in
        if n \<le> 21 then ds
        else (if length s = 1 then s else hd s # CHR ''.'' # tl s) @ ''e+'' @ dec_nat (int n - 1))"

fun number_toString :: "jsnum \<Rightarrow> string" where
  "number_toString (Fin x) =
     (if x < 0 then CHR ''-'' # nat_toString (- x) else nat_toString x)"
| "number_toString NaN = ''NaN''"
| "number_toString (Inf s) = (if s then ''-Infinity'' else ''Infinity'')"

fun number_toFixed :: "jsnum \<Rightarrow> string" where
  "number_toFixed (Fin x) =
     (if 1000000000000000000000 \<le> \<bar>x\<bar> then number_toString (Fin x) else dec_int x)"
| "number_toFixed NaN = ''NaN''"
| "number_toFixed (Inf s) = (if s then ''-Infinity'' else ''Infinity'')"

subsection \<open>The \<open>long\<close> library's 64-bit integers\<close>

text \<open>
  \<open>Long\<close> (the \<open>long\<close> package) holds two 32-bit words and a signedness flag.
  \<open>toNumber\<close> computes \<open>high * 2^32 + (low >>> 0)\<close> in doubles: the product is exact, the
  sum is rounded once.  \<open>toString\<close> is the exact decimal rendering.
\<close>

record long =
  low :: "32 word"
  high :: "32 word"
  unsigned :: bool

definition Long_new :: "int \<Rightarrow> int \<Rightarrow> bool \<Rightarrow> long" where
  "Long_new lo hi u = \<lparr>low = word_of_int lo, high = word_of_int hi, unsigned = u\<rparr>"

definition long_value :: "long \<Rightarrow> int" where
  "long_value l = (if unsigned l then uint (high l) else sint (high l)) * 2 ^ 32 + uint (low l)"

definition Long_toNumber :: "long \<Rightarrow> jsnum" where
  "Long_toNumber l = to_double (long_value l)"

definition Long_toString :: "long \<Rightarrow> string" where
  "Long_toString l = dec_int (long_value l)"

subsection \<open>Buffer reads\<close>

text \<open>
  \<open>buffer[i]\<close> is \<open>undefined\<close> out of range (\<open>None\<close>); the \<open>read*LE\<close> methods throw a
  \<open>RangeError\<close> there.
\<close>

definition buf_index :: "buffer \<Rightarrow> nat \<Rightarrow> byte option" where
  "buf_index buf i = (if i < length buf then Some (buf ! i) else None)"

fun le_uint :: "buffer \<Rightarrow> int" where
  "le_uint [] = 0"
| "le_uint (b # bs) = uint b + 256 * le_uint bs"

definition buf_slice :: "buffer \<Rightarrow> nat \<Rightarrow> nat \<Rightarrow> buffer" where
  "buf_slice buf a b = take (b - a) (drop a buf)"

definition readUIntLE :: "nat \<Rightarrow> buffer \<Rightarrow> nat \<Rightarrow> js_error + int" where
  "readUIntLE n buf off =
     (if off + n \<le> length buf then Inr (le_uint (take n (drop off buf))) else Inl RangeError)"

definition readIntLE :: "nat \<Rightarrow> buffer \<Rightarrow> nat \<Rightarrow> js_error + int" where
  "readIntLE n buf off =
     andThen (readUIntLE n buf off)
       (\<lambda>v. Inr (if 2 ^ (8 * n - 1) \<le> v then v - 2 ^ (8 * n) else v))"

subsection \<open>Values a decoder returns\<close>

text \<open>
  A \<open>Date\<close> is kept as the arguments of \<open>new Date(y, m, d, H, M, S, ms)\<close>, the month
  already zero based; the last one is a quotient \<open>micros / 1000\<close>, of which the
  dividend is kept.  \<open>InvalidDate\<close> is \<open>new Date(NaN)\<close>.
\<close>

record jsdate =
  year :: jsnum
  monthIndex :: jsnum
  day :: jsnum
  hours :: jsnum
  minutes :: jsnum
  seconds :: jsnum
  micros :: int

datatype jsval =
    Undefined
  | Null
  | Num jsnum
  | Str string
  | LongV long
  | Buf buffer
  | DateV jsdate
  | InvalidDate

section \<open>PacketParser: 64-bit readers\<close>

text \<open>
  A method call on a value.  A \<open>Long\<close> has \<open>toNumber\<close> and \<open>toString\<close>; a primitive string
  has \<open>toString\<close> only, so \<open>s.toNumber()\<close> throws a \<open>TypeError\<close>.
\<close>

fun call_toNumber :: "jsval \<Rightarrow> js_error + jsval" where
  "call_toNumber (LongV l) = Inr (Num (Long_toNumber l))"
| "call_toNumber _ = Inl TypeError"

definition uint64Long :: "buffer \<Rightarrow> nat option \<Rightarrow> js_error + long" where
  "uint64Long buf offs =
     (let off = (case offs of None \<Rightarrow> 0 | Some k \<Rightarrow> k) in
      andThen (readIntLE 4 buf off) (\<lambda>word0.
      andThen (readIntLE 4 buf (4 + off)) (\<lambda>word1.
      Inr (Long_new word0 word1 True))))"

definition int64Long :: "buffer \<Rightarrow> nat option \<Rightarrow> js_error + long" where
  "int64Long buf offs =
     (let off = (case offs of None \<Rightarrow> 0 | Some k \<Rightarrow> k) in
      andThen (readIntLE 4 buf off) (\<lambda>word0.
      andThen (readIntLE 4 buf (4 + off)) (\<lambda>word1.
      Inr (Long_new word0 word1 False))))"

fun call_toString :: "jsval \<Rightarrow> js_error + jsval" where
  "call_toString (LongV l) = Inr (Str (Long_toString l))"
| "call_toString (Str s) = Inr (Str s)"
| "call_toString (Num x) = Inr (Str (number_toString x))"
| "call_toString Undefined = Inl TypeError"
| "call_toString Null = Inl TypeError"
| "call_toString _ = Inl (Unmodelled ''toString of an object'')"

definition uint64Number :: "buffer \<Rightarrow> nat option \<Rightarrow> js_error + jsval" where
  "uint64Number buf offs =
     andThen (uint64Long buf offs) (\<lambda>l. call_toNumber (LongV l))"

definition int64Number :: "buffer \<Rightarrow> nat option \<Rightarrow> js_error + jsval" where
  "int64Number buf offs =
     (let off = (case offs of None \<Rightarrow> 0 | Some k \<Rightarrow> k) in
      andThen (readIntLE 4 buf off) (\<lambda>word0.
      andThen (readIntLE 4 buf (4 + off)) (\<lambda>word1.
      if 0 \<le> word1 then Inr (Num (js_add (Fin word0) (js_mul (Fin 4294967296) (Fin word1))))
      else call_toNumber (LongV (Long_new word0 word1 False)))))"

definition uint64String :: "buffer \<Rightarrow> nat option \<Rightarrow> js_error + jsval" where
  "uint64String buf offs =
     andThen (uint64Long buf offs) (\<lambda>l. call_toString (LongV l))"

definition int64String :: "buffer \<Rightarrow> nat option \<Rightarrow> js_error + jsval" where
  "int64String buf offs =
     andThen (int64Long buf offs) (\<lambda>l. call_toString (LongV l))"

text \<open>
  \<open>uint64NumberIfPossible\<close> and \<open>int64NumberIfPossible\<close> bind \<open>long\<close> to the result of
  \<open>toString()\<close>, a string, and then call \<open>long.toNumber()\<close> on it.
\<close>

definition uint64NumberIfPossible :: "buffer \<Rightarrow> nat option \<Rightarrow> js_error + jsval" where
  "uint64NumberIfPossible buf offs =
     andThen (uint64Long buf offs) (\<lambda>l.
     andThen (call_toString (LongV l)) (\<lambda>long.
     andThen (call_toNumber long) (\<lambda>resNumber.
     andThen (call_toString long) (\<lambda>resString.
     andThen (call_toString resNumber) (\<lambda>s.
     Inr (if s = resString then resNumber else resString))))))"

definition int64NumberIfPossible :: "buffer \<Rightarrow> nat option \<Rightarrow> js_error + jsval" where
  "int64NumberIfPossible buf offs =
     andThen (int64Long buf offs) (\<lambda>l.
     andThen (call_toString (LongV l)) (\<lambda>long.
     andThen (call_toNumber long) (\<lambda>resNumber.
     andThen (call_toString long) (\<lambda>resString.
     andThen (call_toString resNumber) (\<lambda>s.
     Inr (if s = resString then resNumber else resString))))))"

section \<open>Packet\<close>

text \<open>
  A packet is a cursor over a shared buffer.  The source's field \<open>end\<close> is \<open>endOff\<close>
  here.  A reader returns its value with the packet as it leaves it; a writer returns the
  packet with the buffer it wrote.
\<close>

record packet =
  sequenceId :: int
  numPackets :: nat
  buffer :: buffer
  start :: nat
  offset :: nat
  endOff :: nat

definition Packet :: "int \<Rightarrow> buffer \<Rightarrow> nat \<Rightarrow> nat \<Rightarrow> packet" where
  "Packet i buf st en =
     \<lparr>sequenceId = i, numPackets = 1, buffer = buf, start = st, offset = st + 4, endOff = en\<rparr>"

subsection \<open>Buffer writes\<close>

text \<open>
  \<open>writeUInt8\<close>, \<open>writeUInt16LE\<close>, \<open>writeUInt32LE\<close> and \<open>writeInt32LE\<close> throw a
  \<open>RangeError\<close> when the value or the offset is out of range; \<open>NaN\<close> passes the
  range comparison and is stored as zero.
\<close>

fun le_bytes :: "nat \<Rightarrow> int \<Rightarrow> buffer" where
  "le_bytes 0 v = []"
| "le_bytes (Suc k) v = word_of_int (v mod 256) # le_bytes k (v div 256)"

definition buf_store :: "buffer \<Rightarrow> nat \<Rightarrow> buffer \<Rightarrow> buffer" where
  "buf_store buf off bs = take off buf @ bs @ drop (off + length bs) buf"

definition writeUIntLE :: "nat \<Rightarrow> jsnum \<Rightarrow> buffer \<Rightarrow> nat \<Rightarrow> js_error + buffer" where
  "writeUIntLE n v buf off =
     (case v of
        Fin x \<Rightarrow>
          if 0 \<le> x \<and> x < 2 ^ (8 * n) \<and> off + n \<le> length buf
          then Inr (buf_store buf off (le_bytes n x)) else Inl RangeError
      | NaN \<Rightarrow>
          if off + n \<le> length buf then Inr (buf_store buf off (le_bytes n 0))
          else Inl RangeError
      | Inf _ \<Rightarrow> Inl RangeError)"

definition writeIntLE :: "nat \<Rightarrow> jsnum \<Rightarrow> buffer \<Rightarrow> nat \<Rightarrow> js_error + buffer" where
  "writeIntLE n v buf off =
     (case v of
        Fin x \<Rightarrow>
          if - (2 ^ (8 * n - 1)) \<le> x \<and> x < 2 ^ (8 * n - 1) \<and> off + n \<le> length buf
          then Inr (buf_store buf off (le_bytes n (x mod 2 ^ (8 * n)))) else Inl RangeError
      | NaN \<Rightarrow>
          if off + n \<le> length buf then Inr (buf_store buf off (le_bytes n 0))
          else Inl RangeError
      | Inf _ \<Rightarrow> Inl RangeError)"

subsection \<open>Bitwise operators and comparisons on numbers\<close>

definition to_int32 :: "jsnum \<Rightarrow> int" where
  "to_int32 v = (case v of Fin x \<Rightarrow> sint (word_of_int x :: 32 word) | _ \<Rightarrow> 0)"

definition js_less :: "jsnum \<Rightarrow> int \<Rightarrow> bool" where
  "js_less v c = (case v of Fin x \<Rightarrow> x < c | NaN \<Rightarrow> False | Inf s \<Rightarrow> s)"

definition js_greater :: "jsnum \<Rightarrow> int \<Rightarrow> bool" where
  "js_greater v c = (case v of Fin x \<Rightarrow> c < x | NaN \<Rightarrow> False | Inf s \<Rightarrow> \<not> s)"

definition isFinite :: "jsnum \<Rightarrow> bool" where
  "isFinite v = (case v of Fin _ \<Rightarrow> True | _ \<Rightarrow> False)"

subsection \<open>Writers\<close>

definition writeInt8 :: "packet \<Rightarrow> jsnum \<Rightarrow> js_error + packet" where
  "writeInt8 p n =
     andThen (writeUIntLE 1 n (buffer p) (offset p))
       (\<lambda>b. Inr (p\<lparr>buffer := b, offset := offset p + 1\<rparr>))"

definition writeInt16 :: "packet \<Rightarrow> jsnum \<Rightarrow> js_error + packet" where
  "writeInt16 p n =
     andThen (writeUIntLE 2 n (buffer p) (offset p))
       (\<lambda>b. Inr (p\<lparr>buffer := b, offset := offset p + 2\<rparr>))"

definition writeInt32 :: "packet \<Rightarrow> jsnum \<Rightarrow> js_error + packet" where
  "writeInt32 p n =
     andThen (writeUIntLE 4 n (buffer p) (offset p))
       (\<lambda>b. Inr (p\<lparr>buffer := b, offset := offset p + 4\<rparr>))"

definition writeInt24 :: "packet \<Rightarrow> jsnum \<Rightarrow> js_error + packet" where
  "writeInt24 p n =
     andThen (writeInt8 p (Fin (to_int32 n AND 255)))
       (\<lambda>p1. writeInt16 p1 (Fin (drop_bit 8 (to_int32 n))))"

subsection \<open>\<open>Long.fromNumber\<close>, \<open>parseInt\<close> and \<open>Long.fromString\<close>\<close>

text \<open>
  \<open>Long.fromNumber(n, true)\<close>: zero below zero and for \<open>NaN\<close>, the largest unsigned
  value from \<open>2^64\<close> on, otherwise the two words of \<open>n\<close>.
\<close>

definition Long_fromNumber_unsigned :: "jsnum \<Rightarrow> long" where
  "Long_fromNumber_unsigned v =
     (case v of
        NaN \<Rightarrow> \<lparr>low = 0, high = 0, unsigned = True\<rparr>
      | Inf s \<Rightarrow> (if s then \<lparr>low = 0, high = 0, unsigned = True\<rparr>
                  else \<lparr>low = - 1, high = - 1, unsigned = True\<rparr>)
      | Fin x \<Rightarrow>
          if x < 0 then \<lparr>low = 0, high = 0, unsigned = True\<rparr>
          else if 18446744073709551616 \<le> x then \<lparr>low = - 1, high = - 1, unsigned = True\<rparr>
          else \<lparr>low = word_of_int x, high = word_of_int (x div 4294967296), unsigned = True\<rparr>)"

text \<open>
  \<open>parseInt(s, 10)\<close>: leading white space, a sign, the longest prefix of decimal digits;
  \<open>NaN\<close> when there is none.  (Past 20 significant digits ECMA-262 lets an engine
  approximate; the correctly rounded value is taken here.)
\<close>

definition is_digit :: "char \<Rightarrow> bool" where
  "is_digit c = (48 \<le> (of_char c :: int) \<and> (of_char c :: int) \<le> 57)"

definition is_white :: "char \<Rightarrow> bool" where
  "is_white c = ((of_char c :: int) \<in> {9, 10, 11, 12, 13, 32, 160})"

definition dec_val :: "string \<Rightarrow> int" where
  "dec_val s = foldl (\<lambda>acc c. acc * 10 + (of_char c - 48)) 0 s"

definition js_parseInt :: "string \<Rightarrow> jsnum" where
  "js_parseInt s =
     (let s1 = dropWhile is_white s;
          neg = (s1 \<noteq> [] \<and> hd s1 = CHR ''-'');
          s2 = (if s1 \<noteq> [] \<and> (hd s1 = CHR ''-'' \<or> hd s1 = CHR ''+'') then tl s1 else s1);
          z = takeWhile is_digit s2
      in if z = [] then NaN
         else if neg then js_neg (to_double (dec_val z)) else to_double (dec_val z))"

text \<open>
  \<open>Long.fromString(s, true, 10)\<close> of the \<open>long\<close> package: the value of the string modulo
  \<open>2^64\<close>, accumulated eight characters at a time with \<open>parseInt\<close> on each chunk.
\<close>

function fromString_loop :: "string \<Rightarrow> 64 word \<Rightarrow> 64 word" where
  "fromString_loop s acc =
     (if s = [] then acc
      else let size = min 8 (length s);
               v = (case js_parseInt (take size s) of Fin x \<Rightarrow> word_of_int x | _ \<Rightarrow> 0)
           in fromString_loop (drop 8 s) (acc * 10 ^ size + v))"
  by pat_completeness auto
termination
  by (relation "measure (\<lambda>(s, acc). length s)") auto

declare fromString_loop.simps [simp del]

fun Long_fromString_bits :: "string \<Rightarrow> js_error + 64 word" where
  "Long_fromString_bits [] = Inl (Error ''empty string'')"
| "Long_fromString_bits (c # cs) =
     (if c # cs \<in> {''NaN'', ''Infinity'', ''+Infinity'', ''-Infinity''} then Inr 0
      else if c = CHR ''-'' then andThen (Long_fromString_bits cs) (\<lambda>w. Inr (- w))
      else if CHR ''-'' \<in> set cs then Inl (Error ''interior hyphen'')
      else Inr (fromString_loop (c # cs) 0))"

definition Long_fromString_unsigned :: "string \<Rightarrow> js_error + long" where
  "Long_fromString_unsigned s =
     andThen (Long_fromString_bits s)
       (\<lambda>w. Inr \<lparr>low = ucast w, high = ucast (drop_bit 32 w), unsigned = True\<rparr>)"

subsection \<open>\<open>writeLengthCodedNumber\<close> and \<open>lengthCodedNumberLength\<close>\<close>

text \<open>
  The argument is \<open>null\<close>, a number, a string or a \<open>Long\<close>.  A string shorter than
  eight characters is compared and written as the number it converts to; only strings of
  decimal digits are followed there.
\<close>

definition longValue_of :: "jsval \<Rightarrow> js_error + long option" where
  "longValue_of n =
     (case n of
        Num v \<Rightarrow> if js_greater v 16777215 then Inr (Some (Long_fromNumber_unsigned v)) else Inr None
      | Str s \<Rightarrow>
          if 8 \<le> length s then andThen (Long_fromString_unsigned s) (\<lambda>l. Inr (Some l))
          else Inr None
      | LongV l \<Rightarrow> Inr (Some l)
      | Buf b \<Rightarrow> Inl (Unmodelled ''an object that is not a Long'')
      | _ \<Rightarrow> Inr None)"

definition small_number :: "jsval \<Rightarrow> js_error + jsnum" where
  "small_number n =
     (case n of
        Num v \<Rightarrow> Inr v
      | Str s \<Rightarrow> if list_all is_digit s then Inr (Fin (dec_val s))
                 else Inl (Unmodelled ''ToNumber of a string that is not decimal digits'')
      | Undefined \<Rightarrow> Inr NaN
      | _ \<Rightarrow> Inl (Unmodelled ''ToNumber of an object''))"

definition write_narrow :: "packet \<Rightarrow> jsnum \<Rightarrow> js_error + packet" where
  "write_narrow p n =
     (if js_less n 251 then writeInt8 p n
      else if js_less n 65536 then andThen (writeInt8 p (Fin 252)) (\<lambda>p1. writeInt16 p1 n)
      else if js_less n 16777216 then andThen (writeInt8 p (Fin 253)) (\<lambda>p1. writeInt24 p1 n)
      else Inl (Error (if isFinite n then ''Should not reach here'' else ''Invalid integer'')))"

definition writeLengthCodedNumber :: "packet \<Rightarrow> jsval \<Rightarrow> js_error + packet" where
  "writeLengthCodedNumber p n =
     (if n = Null then writeInt8 p (Fin 251)
      else andThen (longValue_of n) (\<lambda>longValue.
        case longValue of
          Some l \<Rightarrow>
            if high l = 0 \<and> low l AND 4278190080 = 0
            then write_narrow p (Fin (sint (low l)))
            else andThen (writeInt8 p (Fin 254)) (\<lambda>p1.
                 andThen (writeIntLE 4 (Fin (sint (low l))) (buffer p1) (offset p1)) (\<lambda>b1.
                 andThen (writeIntLE 4 (Fin (sint (high l))) b1 (offset p1 + 4)) (\<lambda>b2.
                 Inr (p1\<lparr>buffer := b2, offset := offset p1 + 8\<rparr>))))
        | None \<Rightarrow> andThen (small_number n) (write_narrow p)))"

definition lengthCodedNumberLength :: "jsnum \<Rightarrow> nat" where
  "lengthCodedNumberLength n =
     (if js_less n 251 then 1
      else if js_less n 65536 then 3
      else if js_less n 16777216 then 5
      else 9)"

subsection \<open>Readers\<close>

definition readInt8 :: "packet \<Rightarrow> byte option \<times> packet" where
  "readInt8 p = (buf_index (buffer p) (offset p), p\<lparr>offset := offset p + 1\<rparr>)"

definition readInt16 :: "packet \<Rightarrow> js_error + int \<times> packet" where
  "readInt16 p =
     andThen (readUIntLE 2 (buffer p) (offset p)) (\<lambda>v. Inr (v, p\<lparr>offset := offset p + 2\<rparr>))"

definition readInt32 :: "packet \<Rightarrow> js_error + int \<times> packet" where
  "readInt32 p =
     andThen (readUIntLE 4 (buffer p) (offset p)) (\<lambda>v. Inr (v, p\<lparr>offset := offset p + 4\<rparr>))"

text \<open>\<open>b\<close> as a number (\<open>undefined\<close> is \<open>NaN\<close>) and \<open>b << k\<close> (\<open>undefined << k\<close> is 0).\<close>

definition byte_num :: "byte option \<Rightarrow> jsnum" where
  "byte_num b = (case b of Some x \<Rightarrow> Fin (uint x) | None \<Rightarrow> NaN)"

definition byte_shl :: "byte option \<Rightarrow> nat \<Rightarrow> jsnum" where
  "byte_shl b k = (case b of Some x \<Rightarrow> Fin (push_bit k (uint x)) | None \<Rightarrow> Fin 0)"

definition readInt24 :: "packet \<Rightarrow> js_error + jsnum \<times> packet" where
  "readInt24 p =
     andThen (readInt16 p) (\<lambda>(lo, p1).
       let (b, p2) = readInt8 p1 in Inr (js_add (Fin lo) (byte_shl b 16), p2))"

definition readLengthCodedNumberExt ::
    "packet \<Rightarrow> byte option \<Rightarrow> bool \<Rightarrow> bool \<Rightarrow> js_error + jsval \<times> packet" where
  "readLengthCodedNumberExt p tag bigNumberStrings signedFlag =
     (if tag = Some 251 then Inr (Null, p)
      else if tag = Some 252 then
        (let (b0, p1) = readInt8 p; (b1, p2) = readInt8 p1
         in Inr (Num (js_add (byte_num b0) (byte_shl b1 8)), p2))
      else if tag = Some 253 then
        (let (b0, p1) = readInt8 p; (b1, p2) = readInt8 p1; (b2, p3) = readInt8 p2
         in Inr (Num (js_add (js_add (byte_num b0) (byte_shl b1 8)) (byte_shl b2 16)), p3))
      else if tag = Some 254 then
        andThen (readInt32 p) (\<lambda>(word0, p1).
        andThen (readInt32 p1) (\<lambda>(word1, p2).
          if word1 = 0 then Inr (Num (Fin word0), p2)
          else if word1 < 2097152
          then Inr (Num (js_add (js_mul (Fin word1) (Fin 4294967296)) (Fin word0)), p2)
          else
            (let res = Long_new word0 word1 (\<not> signedFlag);
                 resNumber = Long_toNumber res;
                 resString = Long_toString res;
                 res' = (if number_toString resNumber = resString then Num resNumber
                         else Str resString)
             in Inr (if bigNumberStrings then Str resString else res', p2))))
      else Inl (Error ''Should not reach here''))"

definition readLengthCodedNumber ::
    "packet \<Rightarrow> bool \<Rightarrow> bool \<Rightarrow> js_error + jsval \<times> packet" where
  "readLengthCodedNumber p bigNumberStrings signedFlag =
     (let (byte1, p1) = readInt8 p in
      case byte1 of
        Some b \<Rightarrow> if b < 251 then Inr (Num (Fin (uint b)), p1)
                  else readLengthCodedNumberExt p1 byte1 bigNumberStrings signedFlag
      | None \<Rightarrow> readLengthCodedNumberExt p1 byte1 bigNumberStrings signedFlag)"

section \<open>The length-coded integer, as specified\<close>

text \<open>
  The five forms of the length-coded integer as the protocol description gives them: the
  value itself below 251, else a tag byte (252, 253, 254) and the value in two, three or
  eight little-endian bytes.  \<open>lcn_arg\<close> is the way a caller hands \<open>n\<close> to the writer (a
  number below \<open>2^53\<close>, a decimal string from there on) and \<open>decodedLen\<close> what the
  reader makes of the bytes.  \<open>put\<close>, \<open>advance\<close> and \<open>bytes_at\<close> describe a packet
  that has written, skipped or is about to read some bytes.
\<close>

definition encodeLen :: "int \<Rightarrow> buffer" where
  "encodeLen n =
     (if n < 251 then [word_of_int n]
      else if n < 65536 then 252 # le_bytes 2 n
      else if n < 16777216 then 253 # le_bytes 3 n
      else 254 # le_bytes 8 n)"

definition put :: "packet \<Rightarrow> buffer \<Rightarrow> packet" where
  "put p bs = p\<lparr>buffer := buf_store (buffer p) (offset p) bs, offset := offset p + length bs\<rparr>"

definition lcn_arg :: "int \<Rightarrow> jsval" where
  "lcn_arg n = (if n < 9007199254740992 then Num (Fin n) else Str (dec_nat n))"

definition bytes_at :: "packet \<Rightarrow> buffer \<Rightarrow> bool" where
  "bytes_at q bs = (offset q + length bs \<le> length (buffer q)
     \<and> take (length bs) (drop (offset q) (buffer q)) = bs)"

definition advance :: "packet \<Rightarrow> nat \<Rightarrow> packet" where
  "advance q k = q\<lparr>offset := offset q + k\<rparr>"

definition decodedLen :: "int \<Rightarrow> jsval" where
  "decodedLen n =
     (if n < 9007199254740992 then Num (Fin n)
      else if number_toString (to_double n) = dec_nat n then Num (to_double n)
      else Str (dec_nat n))"

text \<open>
  Writing a value at the cursor and reading it back from the same position, and the
  result the round trip is expected to give: \<open>n\<close> as a number when a double holds it
  exactly, otherwise its decimal string.
\<close>

definition write_then_read :: "packet \<Rightarrow> jsval \<Rightarrow> js_error + jsval" where
  "write_then_read p n =
     andThen (writeLengthCodedNumber p n) (\<lambda>p1.
     andThen (readLengthCodedNumber (p1\<lparr>offset := offset p\<rparr>) False False) (\<lambda>(v, p2).
     Inr v))"

definition exact_or_string :: "int \<Rightarrow> jsval" where
  "exact_or_string n = (if to_double n = Fin n then Num (Fin n) else Str (dec_nat n))"

section \<open>ASCII integers\<close>

text \<open>
  \<open>buffer.toString('ascii', a, b)\<close> decodes the bytes from \<open>a\<close> up to (not including)
  \<open>b\<close>, clearing the high bit of each; \<open>b\<close> is an end position, not a length, and the
  result is empty when \<open>b \<le> a\<close>.
\<close>

definition ascii_slice :: "buffer \<Rightarrow> nat \<Rightarrow> int \<Rightarrow> string" where
  "ascii_slice buf a b = map (\<lambda>x. char_of (uint x mod 128)) (buf_slice buf a (nat b))"

text \<open>
  The digit loop shared by the ASCII parsers:
  \<open>while (position < end) { result *= 10; result += buffer[position] - 48; position++ }\<close>.
  It returns the result and the position it stops at.
\<close>

definition digit_at :: "buffer \<Rightarrow> nat \<Rightarrow> jsnum" where
  "digit_at buf i = (case buf_index buf i of Some b \<Rightarrow> Fin (uint b - 48) | None \<Rightarrow> NaN)"

function digits_loop :: "buffer \<Rightarrow> nat \<Rightarrow> nat \<Rightarrow> jsnum \<Rightarrow> jsnum \<times> nat" where
  "digits_loop buf position end' result =
     (if position < end'
      then digits_loop buf (Suc position) end' (js_add (js_mul result (Fin 10)) (digit_at buf position))
      else (result, position))"
  by pat_completeness auto
termination
  by (relation "measure (\<lambda>(buf, position, end', result). end' - position)") auto

declare digits_loop.simps [simp del]

definition intAscii :: "buffer \<Rightarrow> nat option \<Rightarrow> int option \<Rightarrow> jsval" where
  "intAscii buf offs len =
     (let off = (case offs of None \<Rightarrow> 0 | Some k \<Rightarrow> k);
          length' = (case offs of None \<Rightarrow> int (length buf)
                     | Some k \<Rightarrow> (case len of None \<Rightarrow> int (length buf) - int k | Some l \<Rightarrow> l))
      in if length' = 0 then Num NaN
         else
           let end' = int off + length';
               isNegative = (buf_index buf off = Some 45);
               position = (if isNegative then off + 1 else off);
               numDigits = (if isNegative then length' - 1 else length');
               isPlus = (buf_index buf position = Some 43);
               position = (if isPlus then position + 1 else position);
               numDigits = (if isPlus then numDigits - 1 else numDigits)
           in if 16 < numDigits then Str (ascii_slice buf off length')
              else if numDigits = 16 \<and> buf_index buf position = Some 57 then
                (let str = ascii_slice buf off length';
                     result = js_parseInt str
                 in if number_toFixed result = str then Num result else Str str)
              else
                (let result = fst (digits_loop buf position (nat end') (Fin 0))
                 in Num (if isNegative then js_neg result else result)))"

definition intAsciiSmall :: "buffer \<Rightarrow> nat option \<Rightarrow> int option \<Rightarrow> jsval" where
  "intAsciiSmall buf offs len =
     (let off = (case offs of None \<Rightarrow> 0 | Some k \<Rightarrow> k);
          length' = (case offs of None \<Rightarrow> int (length buf)
                     | Some k \<Rightarrow> (case len of None \<Rightarrow> int (length buf) - int k | Some l \<Rightarrow> l));
          end' = int off + length'
      in if length' = 0 then Num NaN
         else
           let isNegative = (buf_index buf off = Some 45);
               off = (if isNegative then off + 1 else off);
               off = (if buf_index buf off = Some 43 then off + 1 else off);
               result = fst (digits_loop buf off (nat end') (Fin 0))
           in Num (if isNegative then js_neg result else result))"

text \<open>The bytes of an ASCII string, to write buffers down.\<close>

definition bytes_of :: "string \<Rightarrow> buffer" where
  "bytes_of s = map (\<lambda>c. word_of_int (of_char c)) s"


datatype encoding = Enc string | EncNull | EncUndefined

text \<open>
  \<open>PacketParser.decode\<close> is \<open>StringParser.decode\<close> of \<open>lib/parsers/string.js\<close>, which is
  not among the sources: it is a parameter \<open>decode\<close> of every function that calls it.
\<close>

type_synonym decoder = "buffer \<Rightarrow> encoding \<Rightarrow> string"

definition readString :: "decoder \<Rightarrow> packet \<Rightarrow> nat option \<Rightarrow> encoding \<Rightarrow> string \<times> packet" where
  "readString decode p len enc =
     (let off' = (case len of None \<Rightarrow> endOff p | Some k \<Rightarrow> offset p + k)
      in (decode (buf_slice (buffer p) (offset p) off') enc, p\<lparr>offset := off'\<rparr>))"

text \<open>
  \<open>Number(s)\<close> is followed for an optional sign and decimal digits between white space
  (and for the empty string, which is 0); other numeric literals are not modelled.
\<close>

definition js_Number :: "string \<Rightarrow> jsnum option" where
  "js_Number s =
     (let t = rev (dropWhile is_white (rev (dropWhile is_white s)));
          neg = (t \<noteq> [] \<and> hd t = CHR ''-'');
          ds = (if t \<noteq> [] \<and> (hd t = CHR ''-'' \<or> hd t = CHR ''+'') then tl t else t)
      in if t = [] then Some (Fin 0)
         else if ds \<noteq> [] \<and> list_all is_digit ds
         then Some (if neg then js_neg (to_double (dec_val ds)) else to_double (dec_val ds))
         else None)"

text \<open>
  \<open>Packet.parseInt(len, supportBigNumbers)\<close>.  The first component of the result names
  the \<open>return\<close> the execution leaves by: \<open>len === null\<close>, the \<open>Number(s)\<close> shortcut,
  \<open>len === 0\<close>, the \<open>numDigits >= 15\<close> block, the \<open>numDigits > 16\<close> block, or the end of
  the function after the digit loop.
\<close>

datatype parseInt_return = AtNull | AtNumber | AtZero | AtBig15 | AtBig16 | AtLoop

definition parseInt ::
    "decoder \<Rightarrow> packet \<Rightarrow> nat option \<Rightarrow> bool \<Rightarrow> parseInt_return \<times> (js_error + jsval \<times> packet)" where
  "parseInt decode p len supportBigNumbers =
     (case len of
        None \<Rightarrow> (AtNull, Inr (Null, p))
      | Some n \<Rightarrow>
          if 14 \<le> n \<and> \<not> supportBigNumbers then
            (AtNumber,
             case js_Number (ascii_slice (buffer p) (offset p) (int (offset p + n))) of
               Some v \<Rightarrow> Inr (Num v, p\<lparr>offset := offset p + n\<rparr>)
             | None \<Rightarrow> Inl (Unmodelled ''Number of a string that is not a decimal integer''))
          else
            let start' = offset p;
                end' = offset p + n
            in if n = 0 then (AtZero, Inr (Num (Fin 0), p))
               else
                 let neg = (buf_index (buffer p) (offset p) = Some 45);
                     p1 = (if neg then p\<lparr>offset := offset p + 1\<rparr> else p);
                     sign = (if neg then - 1 else 1);
                     numDigits = int end' - int (offset p1);
                     after_loop =
                       (let p2 = (if buf_index (buffer p1) (offset p1) = Some 43
                                  then p1\<lparr>offset := offset p1 + 1\<rparr> else p1);
                            (result, off') = digits_loop (buffer p2) (offset p2) end' (Fin 0);
                            p3 = p2\<lparr>offset := off'\<rparr>;
                            num = js_mul result (Fin sign)
                        in if \<not> supportBigNumbers then Inr (Num num, p3)
                           else let str = ascii_slice (buffer p3) start' (int end')
                                in if number_toString num = str then Inr (Num num, p3)
                                   else Inr (Str str, p3))
                 in if supportBigNumbers then
                      (if 15 \<le> numDigits then
                         (AtBig15,
                          let (str, p2) = readString decode p1 (Some (end' - offset p1)) (Enc ''binary'');
                              result = js_parseInt str
                          in if number_toString result = str
                             then Inr (Num (js_mul (Fin sign) result), p2)
                             else Inr (Str (if neg then CHR ''-'' # str else str), p2))
                       else if 16 < numDigits then
                         (AtBig16,
                          let (str, p2) = readString decode p1 (Some (end' - offset p1)) EncUndefined
                          in Inr (Str (if neg then CHR ''-'' # str else str), p2))
                       else (AtLoop, after_loop))
                    else (AtLoop, after_loop))"

text \<open>
  \<open>parseLengthCodedInt\<close> hands the length-coded number it reads to \<open>parseInt\<close>; a length
  that is not \<open>null\<close> or a non-negative integer is not followed.
\<close>

definition parseLengthCodedInt ::
    "decoder \<Rightarrow> packet \<Rightarrow> bool \<Rightarrow> js_error + parseInt_return \<times> (js_error + jsval \<times> packet)" where
  "parseLengthCodedInt decode p supportBigNumbers =
     andThen (readLengthCodedNumber p False False) (\<lambda>(len, p1).
       case len of
         Null \<Rightarrow> Inr (parseInt decode p1 None supportBigNumbers)
       | Num (Fin k) \<Rightarrow>
           if 0 \<le> k then Inr (parseInt decode p1 (Some (nat k)) supportBigNumbers)
           else Inl (Unmodelled ''a negative length'')
       | _ \<Rightarrow> Inl (Unmodelled ''a length that is not an integer''))"

text \<open>A decoder to run examples with: every byte is the character of the same code.\<close>

definition latin1 :: decoder where
  "latin1 b e = map (\<lambda>x. char_of (uint x)) b"

section \<open>PacketParser: binary dates\<close>

definition uint8 :: "buffer \<Rightarrow> nat \<Rightarrow> jsval" where
  "uint8 buf off = (case buf_index buf off of Some b \<Rightarrow> Num (Fin (uint b)) | None \<Rightarrow> Undefined)"

definition uint16 :: "buffer \<Rightarrow> nat \<Rightarrow> js_error + jsval" where
  "uint16 buf off = andThen (readUIntLE 2 buf off) (\<lambda>v. Inr (Num (Fin v)))"

definition uint32 :: "buffer \<Rightarrow> nat \<Rightarrow> js_error + int" where
  "uint32 buf off = readUIntLE 4 buf off"

text \<open>\<open>leftPad(num, value)\<close>: \<open>value.toString()\<close> padded with zeros to \<open>num\<close> characters.\<close>

definition leftPad :: "nat \<Rightarrow> jsval \<Rightarrow> js_error + string" where
  "leftPad num v =
     andThen (call_toString v) (\<lambda>r.
       case r of
         Str s \<Rightarrow>
           if num \<le> length s then Inr s
           else Inr (drop (length (''000000000000'' @ s) - num) (''000000000000'' @ s))
       | _ \<Rightarrow> Inl TypeError)"

text \<open>Truthiness of a value in \<open>y || m || d || ...\<close>.\<close>

definition truthy :: "jsval \<Rightarrow> bool" where
  "truthy v =
     (case v of
        Undefined \<Rightarrow> False | Null \<Rightarrow> False
      | Num (Fin k) \<Rightarrow> k \<noteq> 0 | Num NaN \<Rightarrow> False | Num (Inf _) \<Rightarrow> True
      | Str s \<Rightarrow> s \<noteq> []
      | _ \<Rightarrow> True)"

definition to_number :: "jsval \<Rightarrow> jsnum" where
  "to_number v = (case v of Num x \<Rightarrow> x | Null \<Rightarrow> Fin 0 | _ \<Rightarrow> NaN)"

definition resolve_length :: "buffer \<Rightarrow> nat option \<Rightarrow> int option \<Rightarrow> nat \<times> int" where
  "resolve_length buf offs len =
     (case offs of
        None \<Rightarrow> (0, int (length buf))
      | Some k \<Rightarrow> (k, case len of None \<Rightarrow> int (length buf) - int k | Some l \<Rightarrow> l))"

definition dateTime :: "buffer \<Rightarrow> nat option \<Rightarrow> int option \<Rightarrow> js_error + jsval" where
  "dateTime buf offs len =
     (let (off, length') = resolve_length buf offs len in
      andThen (if 3 < length' then uint16 buf off else Inr (Num (Fin 0))) (\<lambda>y.
      let m = (if 3 < length' then uint8 buf (2 + off) else Num (Fin 0));
          d = (if 3 < length' then uint8 buf (3 + off) else Num (Fin 0));
          H = (if 6 < length' then uint8 buf (4 + off) else Num (Fin 0));
          M = (if 6 < length' then uint8 buf (5 + off) else Num (Fin 0));
          S = (if 6 < length' then uint8 buf (6 + off) else Num (Fin 0))
      in andThen (if 10 < length' then uint32 buf (7 + off) else Inr 0) (\<lambda>us.
         if truthy y \<or> truthy m \<or> truthy d \<or> truthy H \<or> truthy M \<or> truthy S \<or> us \<noteq> 0
         then Inr (DateV \<lparr>year = to_number y,
                          monthIndex = js_add (to_number m) (Fin (- 1)),
                          day = to_number d, hours = to_number H, minutes = to_number M,
                          seconds = to_number S, micros = us\<rparr>)
         else Inr InvalidDate)))"

definition dateTimeString ::
    "buffer \<Rightarrow> nat option \<Rightarrow> int option \<Rightarrow> nat option \<Rightarrow> js_error + jsval" where
  "dateTimeString buf offs len decimals =
     (let (off, length') = resolve_length buf offs len in
      if 3 < length' then
        andThen (uint16 buf off) (\<lambda>y.
        let m = uint8 buf (2 + off);
            d = uint8 buf (4 + off)
        in andThen (leftPad 4 y) (\<lambda>ys.
           andThen (leftPad 2 m) (\<lambda>ms.
           andThen (leftPad 2 d) (\<lambda>ds.
           let str = ys @ ''-'' @ ms @ ''-'' @ ds in
           if 6 < length' then
             (let H = uint8 buf (4 + off);
                  M = uint8 buf (5 + off);
                  S = uint8 buf (6 + off)
              in andThen (leftPad 2 H) (\<lambda>Hs.
                 andThen (leftPad 2 M) (\<lambda>Ms.
                 andThen (leftPad 2 S) (\<lambda>Ss.
                 let str = str @ '' '' @ Hs @ '':'' @ Ms @ '':'' @ Ss in
                 if 10 < length' then
                   andThen (uint32 buf (7 + off)) (\<lambda>us.
                   andThen (leftPad 6 (Num (Fin us))) (\<lambda>microseconds.
                   let microseconds =
                         (case decimals of
                            None \<Rightarrow> microseconds
                          | Some k \<Rightarrow> if k \<noteq> 0 \<and> k < length microseconds
                                      then take k microseconds else microseconds)
                   in Inr (Str (str @ ''.'' @ microseconds))))
                 else Inr (Str str)))))
           else Inr (Str str)))))
      else Inr Undefined)"

section \<open>Column definitions and the cast field\<close>

text \<open>
  Of a column definition the decoders use the column type, the \<open>UNSIGNED\<close> bit of the
  flags (\<open>field.flags & FieldFlags.UNSIGNED\<close>, kept as a truth value), the number of
  decimals and the encoding; the names and the other fields are in the record's
  extension.  The column types are those \<open>readCodeFor\<close> tells apart; any other type code
  is \<open>OtherType\<close>.
\<close>

datatype column_type =
    TINY | SHORT | LONG | INT24 | YEAR | FLOAT | DOUBLE | NULL_TYPE
  | DATE | DATETIME | TIMESTAMP | NEWDATE | TIME | DECIMAL | NEWDECIMAL
  | GEOMETRY | JSON | LONGLONG | OtherType nat

record columnDefinition =
  columnType :: column_type
  unsignedFlag :: bool
  decimals :: nat
  encoding :: encoding

text \<open>
  \<open>CastField\<close>.  The closure \<open>defaultRead\<close> is one of four functions, kept with what it
  captured; \<open>call_defaultRead\<close> calls it.
\<close>

datatype defaultRead =
    AlwaysNull
  | CastThunk "buffer \<Rightarrow> js_error + jsval" buffer
  | BufferThunk buffer
  | DecodeThunk buffer encoding

record castField =
  isBinary :: bool
  column :: columnDefinition
  defaultRead :: defaultRead
  fieldBuffer :: buffer
  forceEncoding :: encoding

definition call_defaultRead :: "decoder \<Rightarrow> defaultRead \<Rightarrow> js_error + jsval" where
  "call_defaultRead decode t =
     (case t of
        AlwaysNull \<Rightarrow> Inr Null
      | CastThunk defaultCast fb \<Rightarrow> defaultCast fb
      | BufferThunk fb \<Rightarrow> Inr (Buf fb)
      | DecodeThunk fb enc \<Rightarrow> Inr (Str (decode fb enc)))"

text \<open>
  The constructor.  \<open>fieldBuffer\<close> is \<open>None\<close> for \<open>null\<close> and \<open>undefined\<close>, and
  \<open>defaultCast\<close> is \<open>None\<close> when it is not a function.
\<close>

definition CastField ::
    "bool \<Rightarrow> columnDefinition \<Rightarrow> encoding \<Rightarrow> (buffer \<Rightarrow> js_error + jsval) option
       \<Rightarrow> buffer option \<Rightarrow> castField" where
  "CastField isBin col enc defaultCast fb =
     (case fb of
        None \<Rightarrow>
          \<lparr>isBinary = isBin, column = col, defaultRead = AlwaysNull, fieldBuffer = [],
           forceEncoding = EncNull\<rparr>
      | Some b \<Rightarrow>
          \<lparr>isBinary = isBin, column = col,
           defaultRead =
             (case defaultCast of
                Some f \<Rightarrow> CastThunk f b
              | None \<Rightarrow>
                  if enc = Enc ''binary'' \<or> enc = EncNull \<or> enc = EncUndefined
                  then BufferThunk b else DecodeThunk b enc),
           fieldBuffer = b, forceEncoding = enc\<rparr>)"

text \<open>The getter \<open>encoding\<close>: \<open>this.forceEncoding || this.column.encoding\<close>.\<close>

definition truthy_encoding :: "encoding \<Rightarrow> bool" where
  "truthy_encoding e = (case e of Enc s \<Rightarrow> s \<noteq> [] | _ \<Rightarrow> False)"

definition castField_encoding :: "castField \<Rightarrow> encoding" where
  "castField_encoding cf =
     (if truthy_encoding (forceEncoding cf) then forceEncoding cf else encoding (column cf))"

definition run :: "castField \<Rightarrow> (castField \<Rightarrow> defaultRead \<Rightarrow> js_error + jsval) \<Rightarrow> js_error + jsval" where
  "run cf typeCast = typeCast cf (defaultRead cf)"

section \<open>Error frames\<close>



definition readBuffer :: "packet \<Rightarrow> nat option \<Rightarrow> buffer \<times> packet" where
  "readBuffer p len =
     (let off' = (case len of None \<Rightarrow> endOff p | Some k \<Rightarrow> offset p + k)
      in (buf_slice (buffer p) (offset p) off', p\<lparr>offset := off'\<rparr>))"








section \<open>PacketParser: fixed-width values and binary TIME\<close>

text \<open>
  The decoders that are not followed here (IEEE floats, \<open>floatAscii\<close>, the recursive
  \<open>parseGeometry\<close> inside \<open>geometry\<close>, \<open>JSON.parse\<close>) are a parameter \<open>ext\<close>:
  \<open>ext name bytes\<close> is what the named function returns, or throws, on those bytes.
\<close>

type_synonym externals = "string \<Rightarrow> buffer \<Rightarrow> js_error + jsval"

definition float32 :: "externals \<Rightarrow> buffer \<Rightarrow> nat \<Rightarrow> js_error + jsval" where
  "float32 ext buf off =
     (if off + 4 \<le> length buf then ext ''readFloatLE'' (take 4 (drop off buf)) else Inl RangeError)"

definition float64 :: "externals \<Rightarrow> buffer \<Rightarrow> nat \<Rightarrow> js_error + jsval" where
  "float64 ext buf off =
     (if off + 8 \<le> length buf then ext ''readDoubleLE'' (take 8 (drop off buf)) else Inl RangeError)"

text \<open>
  \<open>geometry(buffer)\<close>, called with the buffer alone: a buffer of fewer than four bytes
  is \<open>null\<close>, any other is parsed past its first four bytes.
\<close>

definition geometry :: "externals \<Rightarrow> buffer \<Rightarrow> js_error + jsval" where
  "geometry ext buf = (if length buf < 4 then Inr Null else ext ''parseGeometry'' buf)"

text \<open>
  \<open>_time(conversion, buffer, offset, length)\<close>; \<open>asNumber\<close> tells the conversion
  \<open>Number\<close> from \<open>String\<close>.  An element \<open>undefined\<close> of the joined array is rendered
  empty.
\<close>

definition join_element :: "jsval \<Rightarrow> js_error + string" where
  "join_element v =
     (case v of
        Undefined \<Rightarrow> Inr [] | Null \<Rightarrow> Inr []
      | Num x \<Rightarrow> Inr (number_toString x) | Str s \<Rightarrow> Inr s
      | _ \<Rightarrow> Inl (Unmodelled ''toString of an object''))"

definition time' ::
    "bool \<Rightarrow> buffer \<Rightarrow> nat option \<Rightarrow> int option \<Rightarrow> js_error + jsval" where
  "time' asNumber buf offs len =
     (let (off, length') = resolve_length buf offs len;
          sign = (if length' \<noteq> 0 \<and> truthy (uint8 buf off) then - 1 else 1 :: int)
      in andThen (if 7 < length' then uint32 buf (1 + off) else Inr 0) (\<lambda>d.
         let H = (if 7 < length' then uint8 buf (5 + off) else Num (Fin 0));
             M = (if 7 < length' then uint8 buf (6 + off) else Num (Fin 0));
             S = (if 7 < length' then uint8 buf (7 + off) else Num (Fin 0))
         in andThen (if 11 < length' then uint32 buf (8 + off) else Inr 0) (\<lambda>microseconds.
            if \<not> asNumber then
              andThen (join_element (if d \<noteq> 0 then Num (js_add (Fin (d * 24)) (to_number H)) else H))
                (\<lambda>hs.
              andThen (leftPad 2 M) (\<lambda>ms.
              andThen (leftPad 2 S) (\<lambda>ss.
              andThen (if microseconds \<noteq> 0 then
                         andThen (leftPad 6 (Num (Fin microseconds))) (\<lambda>us. Inr (''.'' @ us))
                       else Inr []) (\<lambda>frac.
              Inr (Str ((if sign = - 1 then ''-'' else []) @ hs @ '':'' @ ms @ '':'' @ ss @ frac))))))
            else
              (let H = js_add (to_number H) (Fin (d * 24));
                   M = js_add (to_number M) (js_mul H (Fin 60));
                   S = js_add (to_number S) (js_mul M (Fin 60));
                   ms = js_mul S (Fin 1000);
                   ms = js_add ms (Fin (microseconds div 1000))
               in Inr (Num (js_mul (Fin sign) ms))))))"

definition timeString :: "buffer \<Rightarrow> nat option \<Rightarrow> int option \<Rightarrow> js_error + jsval" where
  "timeString buf offs len = time' False buf offs len"

section \<open>The binary row parser\<close>

text \<open>
  \<open>readCodeFor\<close> chooses, for a column, the expression that reads the cell's bytes, the
  encoding (itself an expression: a quoted name, or \<open>fields[i].encoding\<close>) and the
  default cast.  The generated parser is modelled by what it does:
  \<open>BinaryRow\<close> runs the statements \<open>compile\<close> emits, in order, and returns the values
  assigned to the columns in column order (where each is stored, by name, by table or
  by index, is not modelled).
\<close>

datatype buffer_expr = ReadBuffer nat | NullBuffer | ReadLengthCodedBuffer

datatype encoding_expr = Quoted string | FieldEncoding

datatype default_cast =
    PP_uint8 | PP_int8 | PP_uint16 | PP_int16 | PP_uint32 | PP_int32
  | PP_float32 | PP_float64 | PP_alwaysNull
  | PP_dateTimeString | PP_dateTimeString_decimals nat | PP_dateTime | PP_timeString
  | PP_floatAscii | PP_geometry | JSON_parse
  | PP_uint64Number | PP_int64Number | PP_uint64String | PP_int64String
  | PP_uint64NumberIfPossible | PP_int64NumberIfPossible
  | NoCast

text \<open>
  The options a parser is compiled for, resolved as \<open>compile\<close> and \<open>readCodeFor\<close> do:
  \<open>supportBigNumbers\<close> and \<open>bigNumberStrings\<close> of the options or the configuration,
  \<open>dateStrings\<close> and \<open>decimalNumbers\<close> of the configuration, and \<open>cast\<close>, the
  \<open>binaryCast\<close> or \<open>typeCast\<close> function in force, if any.
\<close>

record row_config =
  supportBigNumbers :: bool
  bigNumberStrings :: bool
  dateStrings :: bool
  decimalNumbers :: bool
  cast :: "(castField \<Rightarrow> defaultRead \<Rightarrow> js_error + jsval) option"

definition readCodeFor ::
    "columnDefinition \<Rightarrow> row_config \<Rightarrow> buffer_expr \<times> encoding_expr \<times> default_cast" where
  "readCodeFor field cfg =
     (let unsigned' = unsignedFlag field in
      case columnType field of
        TINY \<Rightarrow> (ReadBuffer 1, Quoted ''binary'', if unsigned' then PP_uint8 else PP_int8)
      | SHORT \<Rightarrow> (ReadBuffer 2, Quoted ''binary'', if unsigned' then PP_uint16 else PP_int16)
      | LONG \<Rightarrow> (ReadBuffer 4, Quoted ''binary'', if unsigned' then PP_uint32 else PP_int32)
      | INT24 \<Rightarrow> (ReadBuffer 4, Quoted ''binary'', if unsigned' then PP_uint32 else PP_int32)
      | YEAR \<Rightarrow> (ReadBuffer 2, Quoted ''binary'', PP_uint16)
      | FLOAT \<Rightarrow> (ReadBuffer 4, Quoted ''binary'', PP_float32)
      | DOUBLE \<Rightarrow> (ReadBuffer 8, Quoted ''binary'', PP_float64)
      | NULL_TYPE \<Rightarrow> (NullBuffer, Quoted ''binary'', PP_alwaysNull)
      | DATE \<Rightarrow> (ReadLengthCodedBuffer, Quoted ''binary'',
                  if dateStrings cfg
                  then (if decimals field = 0 then PP_dateTimeString
                        else PP_dateTimeString_decimals (decimals field))
                  else PP_dateTime)
      | DATETIME \<Rightarrow> (ReadLengthCodedBuffer, Quoted ''binary'',
                  if dateStrings cfg
                  then (if decimals field = 0 then PP_dateTimeString
                        else PP_dateTimeString_decimals (decimals field))
                  else PP_dateTime)
      | TIMESTAMP \<Rightarrow> (ReadLengthCodedBuffer, Quoted ''binary'',
                  if dateStrings cfg
                  then (if decimals field = 0 then PP_dateTimeString
                        else PP_dateTimeString_decimals (decimals field))
                  else PP_dateTime)
      | NEWDATE \<Rightarrow> (ReadLengthCodedBuffer, Quoted ''binary'',
                  if dateStrings cfg
                  then (if decimals field = 0 then PP_dateTimeString
                        else PP_dateTimeString_decimals (decimals field))
                  else PP_dateTime)
      | TIME \<Rightarrow> (ReadLengthCodedBuffer, Quoted ''binary'', PP_timeString)
      | DECIMAL \<Rightarrow> (ReadLengthCodedBuffer, Quoted ''ascii'',
                     if decimalNumbers cfg then PP_floatAscii else NoCast)
      | NEWDECIMAL \<Rightarrow> (ReadLengthCodedBuffer, Quoted ''ascii'',
                     if decimalNumbers cfg then PP_floatAscii else NoCast)
      | GEOMETRY \<Rightarrow> (ReadLengthCodedBuffer, Quoted ''binary'', PP_geometry)
      | JSON \<Rightarrow> (ReadLengthCodedBuffer, Quoted ''utf8'', JSON_parse)
      | LONGLONG \<Rightarrow> (ReadBuffer 8, Quoted ''binary'',
                     if \<not> supportBigNumbers cfg
                     then (if unsigned' then PP_uint64Number else PP_int64Number)
                     else if bigNumberStrings cfg
                     then (if unsigned' then PP_uint64String else PP_int64String)
                     else (if unsigned' then PP_uint64NumberIfPossible
                           else PP_int64NumberIfPossible))
      | OtherType _ \<Rightarrow> (ReadLengthCodedBuffer, FieldEncoding, NoCast))"

text \<open>
  A default cast called on the cell's buffer alone, as the generated code calls it.  A
  method or index on \<open>null\<close> throws a \<open>TypeError\<close>; \<open>JSON.parse(null)\<close> is \<open>null\<close>.
  The cast written for a date column with decimals passes the decimals as the
  \<open>length\<close> argument of \<open>dateTimeString\<close>.
\<close>

definition call_defaultCast :: "externals \<Rightarrow> default_cast \<Rightarrow> buffer option \<Rightarrow> js_error + jsval" where
  "call_defaultCast ext c fb =
     (case c of
        PP_alwaysNull \<Rightarrow> Inr Null
      | _ \<Rightarrow>
        (case fb of
           None \<Rightarrow> (if c = JSON_parse then Inr Null else Inl TypeError)
         | Some b \<Rightarrow>
            (case c of
               PP_uint8 \<Rightarrow> Inr (uint8 b 0)
             | PP_int8 \<Rightarrow> andThen (readIntLE 1 b 0) (\<lambda>v. Inr (Num (Fin v)))
             | PP_uint16 \<Rightarrow> uint16 b 0
             | PP_int16 \<Rightarrow> andThen (readIntLE 2 b 0) (\<lambda>v. Inr (Num (Fin v)))
             | PP_uint32 \<Rightarrow> andThen (readUIntLE 4 b 0) (\<lambda>v. Inr (Num (Fin v)))
             | PP_int32 \<Rightarrow> andThen (readIntLE 4 b 0) (\<lambda>v. Inr (Num (Fin v)))
             | PP_float32 \<Rightarrow> float32 ext b 0
             | PP_float64 \<Rightarrow> float64 ext b 0
             | PP_alwaysNull \<Rightarrow> Inr Null
             | PP_dateTimeString \<Rightarrow> dateTimeString b None None None
             | PP_dateTimeString_decimals k \<Rightarrow> dateTimeString b (Some 0) (Some (int k)) None
             | PP_dateTime \<Rightarrow> dateTime b None None
             | PP_timeString \<Rightarrow> timeString b None None
             | PP_floatAscii \<Rightarrow> ext ''floatAscii'' b
             | PP_geometry \<Rightarrow> geometry ext b
             | JSON_parse \<Rightarrow> ext ''JSON.parse'' b
             | PP_uint64Number \<Rightarrow> uint64Number b None
             | PP_int64Number \<Rightarrow> int64Number b None
             | PP_uint64String \<Rightarrow> uint64String b None
             | PP_int64String \<Rightarrow> int64String b None
             | PP_uint64NumberIfPossible \<Rightarrow> uint64NumberIfPossible b None
             | PP_int64NumberIfPossible \<Rightarrow> int64NumberIfPossible b None
             | NoCast \<Rightarrow> Inl TypeError)))"

definition eval_encoding :: "encoding_expr \<Rightarrow> columnDefinition \<Rightarrow> encoding" where
  "eval_encoding e field = (case e of Quoted s \<Rightarrow> Enc s | FieldEncoding \<Rightarrow> encoding field)"

definition readLengthCodedBuffer :: "packet \<Rightarrow> js_error + buffer option \<times> packet" where
  "readLengthCodedBuffer p =
     andThen (readLengthCodedNumber p False False) (\<lambda>(len, p1).
       case len of
         Null \<Rightarrow> Inr (None, p1)
       | Num (Fin k) \<Rightarrow>
           if 0 \<le> k then (let (b, p2) = readBuffer p1 (Some (nat k)) in Inr (Some b, p2))
           else Inl (Unmodelled ''a negative length'')
       | _ \<Rightarrow> Inl (Unmodelled ''an offset that is no longer an integer''))"

definition read_cell :: "buffer_expr \<Rightarrow> packet \<Rightarrow> js_error + buffer option \<times> packet" where
  "read_cell e p =
     (case e of
        ReadBuffer k \<Rightarrow> (let (b, p1) = readBuffer p (Some k) in Inr (Some b, p1))
      | NullBuffer \<Rightarrow> Inr (None, p)
      | ReadLengthCodedBuffer \<Rightarrow> readLengthCodedBuffer p)"

definition binaryField ::
    "columnDefinition \<Rightarrow> encoding \<Rightarrow> (castField \<Rightarrow> defaultRead \<Rightarrow> js_error + jsval)
       \<Rightarrow> (buffer \<Rightarrow> js_error + jsval) option \<Rightarrow> buffer option \<Rightarrow> js_error + jsval" where
  "binaryField col enc typeCast defaultCast fb = run (CastField True col enc defaultCast fb) typeCast"

text \<open>
  The value the generated statement for one column assigns: through \<open>binaryField\<close> when
  a cast function is in force, otherwise \<open>null\<close> for a NULL cell and else the default
  cast of the cell's bytes (or, with no default cast, the bytes themselves for the
  quoted \<open>binary\<close> encoding and their decoding for any other).  What \<open>decode\<close> does
  with \<open>null\<close> is not in the sources.
\<close>

definition column_value ::
    "decoder \<Rightarrow> externals \<Rightarrow> row_config \<Rightarrow> columnDefinition \<Rightarrow> bool \<Rightarrow> packet
       \<Rightarrow> js_error + jsval \<times> packet" where
  "column_value decode ext cfg field isNull p =
     (let (e, enc, c) = readCodeFor field cfg in
      case cast cfg of
        Some typeCast \<Rightarrow>
          andThen (if isNull then Inr (None, p) else read_cell e p) (\<lambda>(fb, p1).
          andThen (binaryField field (eval_encoding enc field) typeCast
                     (if c = NoCast then None else Some (\<lambda>b. call_defaultCast ext c (Some b))) fb)
            (\<lambda>v. Inr (v, p1)))
      | None \<Rightarrow>
          if isNull then Inr (Null, p)
          else andThen (read_cell e p) (\<lambda>(fb, p1).
            if c \<noteq> NoCast then andThen (call_defaultCast ext c fb) (\<lambda>v. Inr (v, p1))
            else if enc = Quoted ''binary''
            then Inr (case fb of Some b \<Rightarrow> Buf b | None \<Rightarrow> Null, p1)
            else (case fb of
                    Some b \<Rightarrow> Inr (Str (decode b (eval_encoding enc field)), p1)
                  | None \<Rightarrow> Inl (Unmodelled ''decode of null''))))"

definition nullBitmapLength :: "nat \<Rightarrow> nat" where
  "nullBitmapLength n = (n + 7 + 2) div 8"

fun read_bitmask :: "nat \<Rightarrow> packet \<Rightarrow> byte option list \<times> packet" where
  "read_bitmask 0 p = ([], p)"
| "read_bitmask (Suc k) p =
     (let (b, p1) = readInt8 p; (bs, p2) = read_bitmask k p1 in (b # bs, p2))"

text \<open>\<open>nullBitmaskByte<i> & <bit>\<close>: \<open>undefined & bit\<close> is 0.\<close>

definition mask_test :: "byte option list \<Rightarrow> nat \<Rightarrow> nat \<Rightarrow> bool" where
  "mask_test bm i b =
     (i < length bm \<and> (case bm ! i of Some x \<Rightarrow> x AND of_nat b \<noteq> 0 | None \<Rightarrow> False))"

fun parse_columns ::
    "decoder \<Rightarrow> externals \<Rightarrow> row_config \<Rightarrow> byte option list \<Rightarrow> columnDefinition list
       \<Rightarrow> nat \<Rightarrow> nat \<Rightarrow> packet \<Rightarrow> js_error + jsval list \<times> packet" where
  "parse_columns decode ext cfg bm [] currentFieldNullBit nullByteIndex p = Inr ([], p)"
| "parse_columns decode ext cfg bm (field # rest) currentFieldNullBit nullByteIndex p =
     andThen (column_value decode ext cfg field (mask_test bm nullByteIndex currentFieldNullBit) p)
       (\<lambda>(v, p1).
          let bit' = currentFieldNullBit * 2;
              (bit'', index') = (if bit' = 256 then (1, nullByteIndex + 1) else (bit', nullByteIndex))
          in andThen (parse_columns decode ext cfg bm rest bit'' index' p1)
               (\<lambda>(vs, p2). Inr (v # vs, p2)))"

definition BinaryRow ::
    "decoder \<Rightarrow> externals \<Rightarrow> row_config \<Rightarrow> columnDefinition list \<Rightarrow> packet
       \<Rightarrow> js_error + jsval list \<times> packet" where
  "BinaryRow decode ext cfg cols p =
     (let (status, p1) = readInt8 p;
          (bm, p2) = read_bitmask (nullBitmapLength (length cols)) p1
      in parse_columns decode ext cfg bm cols 4 0 p2)"

section \<open>The binary row, as specified\<close>

text \<open>
  The layout in the words of the protocol description: after the status byte comes the
  null bitmap, and column \<open>k\<close> is NULL when bit \<open>k + 2\<close> of the bitmap is set, counting
  from the lowest bit of the first byte.  \<open>spec_columns\<close> reads the columns with that
  test; \<open>null_bitmask\<close> are the bitmap bytes of a row of \<open>n\<close> columns.
\<close>

definition spec_null_bit :: "byte option list \<Rightarrow> nat \<Rightarrow> bool" where
  "spec_null_bit bm k =
     ((k + 2) div 8 < length bm \<and>
      (case bm ! ((k + 2) div 8) of Some x \<Rightarrow> bit x ((k + 2) mod 8) | None \<Rightarrow> False))"

fun spec_columns ::
    "decoder \<Rightarrow> externals \<Rightarrow> row_config \<Rightarrow> byte option list \<Rightarrow> nat \<Rightarrow> columnDefinition list
       \<Rightarrow> packet \<Rightarrow> js_error + jsval list \<times> packet" where
  "spec_columns decode ext cfg bm k [] p = Inr ([], p)"
| "spec_columns decode ext cfg bm k (field # rest) p =
     andThen (column_value decode ext cfg field (spec_null_bit bm k) p) (\<lambda>(v, p1).
     andThen (spec_columns decode ext cfg bm (Suc k) rest p1) (\<lambda>(vs, p2). Inr (v # vs, p2)))"

definition null_bitmask :: "packet \<Rightarrow> nat \<Rightarrow> byte option list" where
  "null_bitmask p n = map (\<lambda>i. buf_index (buffer p) (offset p + 1 + i)) [0..<(n + 9) div 8]"

definition no_ext :: externals where
  "no_ext name b = Inl (Unmodelled name)"

definition plain_config :: row_config where
  "plain_config = \<lparr>supportBigNumbers = False, bigNumberStrings = False, dateStrings = False,
                    decimalNumbers = False, cast = None\<rparr>"

definition S8_fields :: "columnDefinition list" where
  "S8_fields = [\<lparr>columnType = TINY, unsignedFlag = True, decimals = 0, encoding = Enc ''binary''\<rparr>,
                \<lparr>columnType = OtherType 253, unsignedFlag = False, decimals = 0, encoding = Enc ''utf8''\<rparr>]"

definition S8_packet :: packet where
  "S8_packet = Packet 0 [3, 0, 0, 1, 0x00, 0x08, 0x2A] 0 7"

definition null_column :: columnDefinition where
  "null_column = \<lparr>columnType = NULL_TYPE, unsignedFlag = False, decimals = 0, encoding = Enc ''binary''\<rparr>"

section \<open>The readers of a packet\<close>

text \<open>
  Every reader of \<open>Packet\<close> returns its value and the packet with the cursor where the
  reader leaves it.  A reader that throws returns the error only: what a caller that
  catches the exception finds in \<open>offset\<close> is not modelled.  Where the source adds to
  \<open>offset\<close> a length that is not an integer (\<open>undefined\<close>, \<open>NaN\<close>, a decimal string),
  the cursor stops being a position and the model gives up.
\<close>

definition readSInt8 :: "packet \<Rightarrow> js_error + int \<times> packet" where
  "readSInt8 p =
     andThen (readIntLE 1 (buffer p) (offset p)) (\<lambda>v. Inr (v, p\<lparr>offset := offset p + 1\<rparr>))"

definition readSInt16 :: "packet \<Rightarrow> js_error + int \<times> packet" where
  "readSInt16 p =
     andThen (readIntLE 2 (buffer p) (offset p)) (\<lambda>v. Inr (v, p\<lparr>offset := offset p + 2\<rparr>))"

definition readSInt32 :: "packet \<Rightarrow> js_error + int \<times> packet" where
  "readSInt32 p =
     andThen (readIntLE 4 (buffer p) (offset p)) (\<lambda>v. Inr (v, p\<lparr>offset := offset p + 4\<rparr>))"

definition readInt64JSNumber :: "packet \<Rightarrow> js_error + jsval \<times> packet" where
  "readInt64JSNumber p =
     andThen (uint64Number (buffer p) (Some (offset p))) (\<lambda>v. Inr (v, p\<lparr>offset := offset p + 8\<rparr>))"

definition readSInt64JSNumber :: "packet \<Rightarrow> js_error + jsval \<times> packet" where
  "readSInt64JSNumber p =
     andThen (int64Number (buffer p) (Some (offset p))) (\<lambda>v. Inr (v, p\<lparr>offset := offset p + 8\<rparr>))"

definition readInt64String :: "packet \<Rightarrow> js_error + jsval \<times> packet" where
  "readInt64String p =
     andThen (uint64String (buffer p) (Some (offset p))) (\<lambda>v. Inr (v, p\<lparr>offset := offset p + 8\<rparr>))"

definition readSInt64String :: "packet \<Rightarrow> js_error + jsval \<times> packet" where
  "readSInt64String p =
     andThen (int64String (buffer p) (Some (offset p))) (\<lambda>v. Inr (v, p\<lparr>offset := offset p + 8\<rparr>))"

definition readInt64 :: "packet \<Rightarrow> js_error + jsval \<times> packet" where
  "readInt64 p =
     andThen (uint64NumberIfPossible (buffer p) (Some (offset p)))
       (\<lambda>v. Inr (v, p\<lparr>offset := offset p + 8\<rparr>))"

definition readSInt64 :: "packet \<Rightarrow> js_error + jsval \<times> packet" where
  "readSInt64 p =
     andThen (int64NumberIfPossible (buffer p) (Some (offset p)))
       (\<lambda>v. Inr (v, p\<lparr>offset := offset p + 8\<rparr>))"

definition readLengthCodedNumberSigned :: "packet \<Rightarrow> bool \<Rightarrow> js_error + jsval \<times> packet" where
  "readLengthCodedNumberSigned p bigStrings = readLengthCodedNumber p bigStrings True"

definition readFloat :: "externals \<Rightarrow> packet \<Rightarrow> js_error + jsval \<times> packet" where
  "readFloat ext p =
     andThen (float32 ext (buffer p) (offset p)) (\<lambda>res. Inr (res, p\<lparr>offset := offset p + 4\<rparr>))"

definition readDouble :: "externals \<Rightarrow> packet \<Rightarrow> js_error + jsval \<times> packet" where
  "readDouble ext p =
     andThen (float64 ext (buffer p) (offset p)) (\<lambda>res. Inr (res, p\<lparr>offset := offset p + 8\<rparr>))"

definition readDateTime :: "packet \<Rightarrow> js_error + jsval \<times> packet" where
  "readDateTime p =
     (let (length', p1) = readInt8 p in
      case length' of
        None \<Rightarrow> Inl (Unmodelled ''an offset that is no longer an integer'')
      | Some b \<Rightarrow>
          if b = 251 then Inr (Null, p1)
          else andThen (dateTime (buffer p1) (Some (offset p1)) (Some (uint b)))
                 (\<lambda>v. Inr (v, p1\<lparr>offset := offset p1 + unat b\<rparr>)))"

definition readDateTimeString :: "packet \<Rightarrow> nat option \<Rightarrow> js_error + jsval \<times> packet" where
  "readDateTimeString p decimals' =
     (let (length', p1) = readInt8 p in
      case length' of
        None \<Rightarrow> Inl (Unmodelled ''an offset that is no longer an integer'')
      | Some b \<Rightarrow>
          andThen (dateTimeString (buffer p1) (Some (offset p1)) (Some (uint b)) decimals')
            (\<lambda>v. Inr (v, p1\<lparr>offset := offset p1 + unat b\<rparr>)))"

definition readTimeString :: "packet \<Rightarrow> bool \<Rightarrow> js_error + jsval \<times> packet" where
  "readTimeString p convertTtoMs =
     (let (length', p1) = readInt8 p in
      case length' of
        None \<Rightarrow> Inl (Unmodelled ''an offset that is no longer an integer'')
      | Some b \<Rightarrow>
          andThen (time' convertTtoMs (buffer p1) (Some (offset p1)) (Some (uint b)))
            (\<lambda>v. Inr (v, p1\<lparr>offset := offset p1 + unat b\<rparr>)))"

definition readLengthCodedString :: "decoder \<Rightarrow> packet \<Rightarrow> encoding \<Rightarrow> js_error + jsval \<times> packet" where
  "readLengthCodedString decode p enc =
     andThen (readLengthCodedNumber p False False) (\<lambda>(len, p1).
       case len of
         Null \<Rightarrow> Inr (Null, p1)
       | Num (Fin k) \<Rightarrow>
           if 0 \<le> k
           then Inr (Str (decode (buf_slice (buffer p1) (offset p1) (offset p1 + nat k)) enc),
                     p1\<lparr>offset := offset p1 + nat k\<rparr>)
           else Inl (Unmodelled ''a negative length'')
       | _ \<Rightarrow> Inl (Unmodelled ''an offset that is no longer an integer''))"

text \<open>
  \<open>readNullTerminatedString\<close>: the loop stops at the first byte that is zero or past
  the end of the buffer.
\<close>

definition readNullTerminatedString ::
    "decoder \<Rightarrow> packet \<Rightarrow> encoding \<Rightarrow> string \<times> packet" where
  "readNullTerminatedString decode p enc =
     (let start' = offset p;
          end' = offset p + length (takeWhile (\<lambda>b. b \<noteq> 0) (drop (offset p) (buffer p)))
      in (decode (buf_slice (buffer p) start' end') enc, p\<lparr>offset := end' + 1\<rparr>))"

text \<open>The read operations, and one call of each.\<close>

datatype read_op =
    ReadInt8 | ReadInt16 | ReadInt24 | ReadInt32
  | ReadSInt8 | ReadSInt16 | ReadSInt32
  | ReadInt64JSNumber | ReadSInt64JSNumber | ReadInt64String | ReadSInt64String
  | ReadInt64 | ReadSInt64
  | ReadLengthCodedNumber bool bool | ReadLengthCodedNumberSigned bool
  | ReadFloat | ReadDouble
  | ReadBuffer "nat option"
  | ReadDateTime | ReadDateTimeString "nat option" | ReadTimeString bool
  | ReadLengthCodedString encoding | ReadLengthCodedBuffer
  | ReadNullTerminatedString encoding
  | ReadString "nat option" encoding

definition int_result :: "js_error + int \<times> packet \<Rightarrow> js_error + jsval \<times> packet" where
  "int_result r = andThen r (\<lambda>(v, p1). Inr (Num (Fin v), p1))"

definition run_read :: "decoder \<Rightarrow> externals \<Rightarrow> read_op \<Rightarrow> packet \<Rightarrow> js_error + jsval \<times> packet" where
  "run_read decode ext op p =
     (case op of
        ReadInt8 \<Rightarrow>
          (let (b, p1) = readInt8 p
           in Inr (case b of Some x \<Rightarrow> Num (Fin (uint x)) | None \<Rightarrow> Undefined, p1))
      | ReadInt16 \<Rightarrow> int_result (readInt16 p)
      | ReadInt24 \<Rightarrow> andThen (readInt24 p) (\<lambda>(v, p1). Inr (Num v, p1))
      | ReadInt32 \<Rightarrow> int_result (readInt32 p)
      | ReadSInt8 \<Rightarrow> int_result (readSInt8 p)
      | ReadSInt16 \<Rightarrow> int_result (readSInt16 p)
      | ReadSInt32 \<Rightarrow> int_result (readSInt32 p)
      | ReadInt64JSNumber \<Rightarrow> readInt64JSNumber p
      | ReadSInt64JSNumber \<Rightarrow> readSInt64JSNumber p
      | ReadInt64String \<Rightarrow> readInt64String p
      | ReadSInt64String \<Rightarrow> readSInt64String p
      | ReadInt64 \<Rightarrow> readInt64 p
      | ReadSInt64 \<Rightarrow> readSInt64 p
      | ReadLengthCodedNumber bigStrings signedFlag \<Rightarrow>
          readLengthCodedNumber p bigStrings signedFlag
      | ReadLengthCodedNumberSigned bigStrings \<Rightarrow>
          readLengthCodedNumberSigned p bigStrings
      | ReadFloat \<Rightarrow> readFloat ext p
      | ReadDouble \<Rightarrow> readDouble ext p
      | ReadBuffer len \<Rightarrow> (let (b, p1) = readBuffer p len in Inr (Buf b, p1))
      | ReadDateTime \<Rightarrow> readDateTime p
      | ReadDateTimeString decimals' \<Rightarrow> readDateTimeString p decimals'
      | ReadTimeString convertTtoMs \<Rightarrow> readTimeString p convertTtoMs
      | ReadLengthCodedString enc \<Rightarrow> readLengthCodedString decode p enc
      | ReadLengthCodedBuffer \<Rightarrow>
          andThen (readLengthCodedBuffer p)
            (\<lambda>(b, p1). Inr (case b of Some x \<Rightarrow> Buf x | None \<Rightarrow> Null, p1))
      | ReadNullTerminatedString enc \<Rightarrow>
          (let (s, p1) = readNullTerminatedString decode p enc in Inr (Str s, p1))
      | ReadString len enc \<Rightarrow> (let (s, p1) = readString decode p len enc in Inr (Str s, p1)))"

fun run_reads ::
    "decoder \<Rightarrow> externals \<Rightarrow> read_op list \<Rightarrow> packet \<Rightarrow> js_error + jsval list \<times> packet" where
  "run_reads decode ext [] p = Inr ([], p)"
| "run_reads decode ext (op # ops) p =
     andThen (run_read decode ext op p) (\<lambda>(v, p1).
     andThen (run_reads decode ext ops p1) (\<lambda>(vs, p2). Inr (v # vs, p2)))"

section \<open>The bytes a value occupies on the wire\<close>

text \<open>
  The size of each value as the protocol lays it out at the cursor, told from the bytes
  alone: the fixed widths; for a length-coded integer one byte, or the tag and two, three
  or eight bytes; for a length-coded string or buffer the integer and as many bytes as
  it says (none for the NULL tag \<open>0xfb\<close>); for a binary date or time the length byte
  and as many bytes as it says; for a null-terminated string the bytes up to and
  including the terminator; for the rest of the packet what is left before \<open>end\<close>.
\<close>

definition lcn_width :: "buffer \<Rightarrow> nat \<Rightarrow> nat" where
  "lcn_width buf off =
     (case buf_index buf off of
        None \<Rightarrow> 1
      | Some t \<Rightarrow>
          if t < 251 then 1 else if t = 251 then 1
          else if t = 252 then 3 else if t = 253 then 4 else 9)"

definition lcn_payload :: "buffer \<Rightarrow> nat \<Rightarrow> int" where
  "lcn_payload buf off =
     (case buf_index buf off of
        None \<Rightarrow> 0
      | Some t \<Rightarrow>
          if t < 251 then uint t
          else if t = 251 then 0
          else if t = 252 then le_uint (take 2 (drop (off + 1) buf))
          else if t = 253 then le_uint (take 3 (drop (off + 1) buf))
          else le_uint (take 8 (drop (off + 1) buf)))"

definition length_byte :: "buffer \<Rightarrow> nat \<Rightarrow> nat" where
  "length_byte buf off = (case buf_index buf off of None \<Rightarrow> 0 | Some b \<Rightarrow> unat b)"

definition consumed :: "read_op \<Rightarrow> packet \<Rightarrow> nat" where
  "consumed op p =
     (case op of
        ReadInt8 \<Rightarrow> 1 | ReadInt16 \<Rightarrow> 2 | ReadInt24 \<Rightarrow> 3 | ReadInt32 \<Rightarrow> 4
      | ReadSInt8 \<Rightarrow> 1 | ReadSInt16 \<Rightarrow> 2 | ReadSInt32 \<Rightarrow> 4
      | ReadInt64JSNumber \<Rightarrow> 8 | ReadSInt64JSNumber \<Rightarrow> 8
      | ReadInt64String \<Rightarrow> 8 | ReadSInt64String \<Rightarrow> 8
      | ReadInt64 \<Rightarrow> 8 | ReadSInt64 \<Rightarrow> 8
      | ReadLengthCodedNumber _ _ \<Rightarrow> lcn_width (buffer p) (offset p)
      | ReadLengthCodedNumberSigned _ \<Rightarrow> lcn_width (buffer p) (offset p)
      | ReadFloat \<Rightarrow> 4 | ReadDouble \<Rightarrow> 8
      | ReadBuffer len \<Rightarrow> (case len of Some k \<Rightarrow> k | None \<Rightarrow> endOff p - offset p)
      | ReadDateTime \<Rightarrow>
          1 + (if buf_index (buffer p) (offset p) = Some 251 then 0
               else length_byte (buffer p) (offset p))
      | ReadDateTimeString _ \<Rightarrow> 1 + length_byte (buffer p) (offset p)
      | ReadTimeString _ \<Rightarrow> 1 + length_byte (buffer p) (offset p)
      | ReadLengthCodedString _ \<Rightarrow>
          lcn_width (buffer p) (offset p) + nat (lcn_payload (buffer p) (offset p))
      | ReadLengthCodedBuffer \<Rightarrow>
          lcn_width (buffer p) (offset p) + nat (lcn_payload (buffer p) (offset p))
      | ReadNullTerminatedString _ \<Rightarrow>
          length (takeWhile (\<lambda>b. b \<noteq> 0) (drop (offset p) (buffer p))) + 1
      | ReadString len _ \<Rightarrow> (case len of Some k \<Rightarrow> k | None \<Rightarrow> endOff p - offset p))"

text \<open>
  A sequence of reads each of which reads only data that lies before \<open>end\<close>, and the
  bytes the sequence occupies.
\<close>

fun in_window :: "read_op list \<Rightarrow> packet \<Rightarrow> bool" where
  "in_window [] p = True"
| "in_window (op # ops) p =
     (offset p + consumed op p \<le> endOff p \<and> in_window ops (advance p (consumed op p)))"

fun total_consumed :: "read_op list \<Rightarrow> packet \<Rightarrow> nat" where
  "total_consumed [] p = 0"
| "total_consumed (op # ops) p = consumed op p + total_consumed ops (advance p (consumed op p))"

text \<open>A buffer of the runtime has fewer than \<open>2^53\<close> bytes.\<close>

definition max_length :: nat where
  "max_length = 9007199254740991"

text \<open>A packet to run the readers on, and a sequence of reads that takes it to its end.\<close>

definition handshake_bytes :: buffer where
  "handshake_bytes = [15, 0, 0, 0, 10, 56, 46, 48, 0, 7, 1, 0, 0, 252, 44, 1, 2, 104, 105]"

definition handshake_like :: packet where
  "handshake_like = Packet 0 handshake_bytes 0 19"

definition handshake_ops :: "read_op list" where
  "handshake_ops = [ReadInt8, ReadNullTerminatedString (Enc ''utf8''), ReadInt32,
                    ReadLengthCodedNumber False False, ReadLengthCodedString (Enc ''utf8''),
                    ReadBuffer None]"

text \<open>A result that is a value or an exception of the program, not a step the model gives up on.\<close>

definition modelled :: "js_error + 'a \<Rightarrow> bool" where
  "modelled r = (case r of Inl (Unmodelled _) \<Rightarrow> False | _ \<Rightarrow> True)"

section \<open>The cells of a binary row, as specified\<close>

text \<open>
  The table of the binary protocol: the bytes a cell that is not NULL occupies, by
  column type (a fixed number, or a length-coded buffer; a column of type \<open>NULL\<close>
  has none), and its default decoding.  A cell whose null bit is set is \<open>null\<close> and
  occupies nothing.  \<open>spec_row\<close> reads the columns in order with the null test of the
  protocol.  The decoders are those the parser is given for each type: \<open>YEAR\<close> is
  read unsigned whatever its flag, and for a date column with decimals under
  \<open>dateStrings\<close> the decimals are handed to \<open>dateTimeString\<close> in the place of the
  length, as the generated cast does.
\<close>

definition spec_width :: "column_type \<Rightarrow> nat option" where
  "spec_width t =
     (case t of
        TINY \<Rightarrow> Some 1 | SHORT \<Rightarrow> Some 2 | YEAR \<Rightarrow> Some 2
      | LONG \<Rightarrow> Some 4 | INT24 \<Rightarrow> Some 4 | FLOAT \<Rightarrow> Some 4
      | DOUBLE \<Rightarrow> Some 8 | LONGLONG \<Rightarrow> Some 8
      | _ \<Rightarrow> None)"

definition spec_raw_cell :: "column_type \<Rightarrow> packet \<Rightarrow> js_error + buffer option \<times> packet" where
  "spec_raw_cell t p =
     (if t = NULL_TYPE then Inr (None, p)
      else case spec_width t of
        Some k \<Rightarrow> Inr (Some (buf_slice (buffer p) (offset p) (offset p + k)), advance p k)
      | None \<Rightarrow> readLengthCodedBuffer p)"

definition with_bytes :: "buffer option \<Rightarrow> (buffer \<Rightarrow> js_error + jsval) \<Rightarrow> js_error + jsval" where
  "with_bytes fb f = (case fb of Some b \<Rightarrow> f b | None \<Rightarrow> Inl TypeError)"

definition as_number :: "js_error + int \<Rightarrow> js_error + jsval" where
  "as_number r = andThen r (\<lambda>v. Inr (Num (Fin v)))"

definition spec_date :: "row_config \<Rightarrow> columnDefinition \<Rightarrow> buffer option \<Rightarrow> js_error + jsval" where
  "spec_date cfg field fb =
     with_bytes fb (\<lambda>b.
       if dateStrings cfg
       then (if decimals field = 0 then dateTimeString b None None None
             else dateTimeString b (Some 0) (Some (int (decimals field))) None)
       else dateTime b None None)"

definition spec_decimal ::
    "decoder \<Rightarrow> externals \<Rightarrow> row_config \<Rightarrow> buffer option \<Rightarrow> js_error + jsval" where
  "spec_decimal decode ext cfg fb =
     (if decimalNumbers cfg then with_bytes fb (ext ''floatAscii'')
      else case fb of
        Some b \<Rightarrow> Inr (Str (decode b (Enc ''ascii'')))
      | None \<Rightarrow> Inl (Unmodelled ''decode of null''))"

definition spec_decode ::
    "decoder \<Rightarrow> externals \<Rightarrow> row_config \<Rightarrow> columnDefinition \<Rightarrow> buffer option
       \<Rightarrow> js_error + jsval" where
  "spec_decode decode ext cfg field fb =
     (case columnType field of
        TINY \<Rightarrow> with_bytes fb (\<lambda>b. if unsignedFlag field then Inr (uint8 b 0)
                                    else as_number (readIntLE 1 b 0))
      | SHORT \<Rightarrow> with_bytes fb (\<lambda>b. if unsignedFlag field then uint16 b 0
                                     else as_number (readIntLE 2 b 0))
      | YEAR \<Rightarrow> with_bytes fb (\<lambda>b. uint16 b 0)
      | LONG \<Rightarrow> with_bytes fb (\<lambda>b. as_number (if unsignedFlag field then readUIntLE 4 b 0
                                                else readIntLE 4 b 0))
      | INT24 \<Rightarrow> with_bytes fb (\<lambda>b. as_number (if unsignedFlag field then readUIntLE 4 b 0
                                                 else readIntLE 4 b 0))
      | FLOAT \<Rightarrow> with_bytes fb (\<lambda>b. float32 ext b 0)
      | DOUBLE \<Rightarrow> with_bytes fb (\<lambda>b. float64 ext b 0)
      | LONGLONG \<Rightarrow>
          with_bytes fb (\<lambda>b.
            if \<not> supportBigNumbers cfg
            then (if unsignedFlag field then uint64Number b None else int64Number b None)
            else if bigNumberStrings cfg
            then (if unsignedFlag field then uint64String b None else int64String b None)
            else (if unsignedFlag field then uint64NumberIfPossible b None
                  else int64NumberIfPossible b None))
      | NULL_TYPE \<Rightarrow> Inr Null
      | DATE \<Rightarrow> spec_date cfg field fb
      | DATETIME \<Rightarrow> spec_date cfg field fb
      | TIMESTAMP \<Rightarrow> spec_date cfg field fb
      | NEWDATE \<Rightarrow> spec_date cfg field fb
      | TIME \<Rightarrow> with_bytes fb (\<lambda>b. timeString b None None)
      | DECIMAL \<Rightarrow> spec_decimal decode ext cfg fb
      | NEWDECIMAL \<Rightarrow> spec_decimal decode ext cfg fb
      | GEOMETRY \<Rightarrow> with_bytes fb (geometry ext)
      | JSON \<Rightarrow> (case fb of Some b \<Rightarrow> ext ''JSON.parse'' b | None \<Rightarrow> Inr Null)
      | OtherType _ \<Rightarrow>
          (case fb of
             Some b \<Rightarrow> Inr (Str (decode b (encoding field)))
           | None \<Rightarrow> Inl (Unmodelled ''decode of null'')))"

definition spec_cell ::
    "decoder \<Rightarrow> externals \<Rightarrow> row_config \<Rightarrow> columnDefinition \<Rightarrow> bool \<Rightarrow> packet
       \<Rightarrow> js_error + jsval \<times> packet" where
  "spec_cell decode ext cfg field isNull p =
     (if isNull then Inr (Null, p)
      else andThen (spec_raw_cell (columnType field) p) (\<lambda>(fb, p1).
           andThen (spec_decode decode ext cfg field fb) (\<lambda>v. Inr (v, p1))))"

fun spec_row ::
    "decoder \<Rightarrow> externals \<Rightarrow> row_config \<Rightarrow> byte option list \<Rightarrow> nat \<Rightarrow> columnDefinition list
       \<Rightarrow> packet \<Rightarrow> js_error + jsval list \<times> packet" where
  "spec_row decode ext cfg bm k [] p = Inr ([], p)"
| "spec_row decode ext cfg bm k (field # rest) p =
     andThen (spec_cell decode ext cfg field (spec_null_bit bm k) p) (\<lambda>(v, p1).
     andThen (spec_row decode ext cfg bm (Suc k) rest p1) (\<lambda>(vs, p2). Inr (v # vs, p2)))"

text \<open>
  The column types whose default decoding of a cell that is present can be \<open>null\<close>,
  and the externals that return numbers where the program's do.
\<close>

definition may_decode_null :: "column_type \<Rightarrow> bool" where
  "may_decode_null t = (t = NULL_TYPE \<or> t = GEOMETRY \<or> t = JSON)"

definition numeric_ext :: "externals \<Rightarrow> bool" where
  "numeric_ext ext =
     (\<forall>b v. (ext ''readFloatLE'' b = Inr v \<or> ext ''readDoubleLE'' b = Inr v
              \<or> ext ''floatAscii'' b = Inr v) \<longrightarrow> (\<exists>x. v = Num x))"

definition json_column :: columnDefinition where
  "json_column = \<lparr>columnType = JSON, unsignedFlag = False, decimals = 0, encoding = Enc ''utf8''\<rparr>"

definition geometry_column :: columnDefinition where
  "geometry_column =
     \<lparr>columnType = GEOMETRY, unsignedFlag = False, decimals = 0, encoding = Enc ''binary''\<rparr>"

definition seven_config :: row_config where
  "seven_config = plain_config\<lparr>cast := Some (\<lambda>field next. Inr (Num (Fin 7)))\<rparr>"

text \<open>
  A row of three columns to run the parser on: an unsigned \<open>TINY\<close>, a string that is
  NULL and a \<open>FLOAT\<close>, with externals that answer the number 1.
\<close>

definition sample_ext :: externals where
  "sample_ext name b = Inr (Num (Fin 1))"

definition sample_fields :: "columnDefinition list" where
  "sample_fields =
     S8_fields @ [\<lparr>columnType = FLOAT, unsignedFlag = False, decimals = 0, encoding = Enc ''binary''\<rparr>]"

definition sample_packet :: packet where
  "sample_packet = Packet 0 [7, 0, 0, 1, 0x00, 0x08, 0x2A, 0, 0, 128, 63] 0 11"

section \<open>Results\<close>

lemma andThen_Inr [simp]: "andThen (Inr x) f = f x"
  by (simp add: andThen_def)

lemma andThen_Inl [simp]: "andThen (Inl e) f = Inl e"
  by (simp add: andThen_def)

subsection \<open>The default 64-bit readers\<close>

lemma uint64NumberIfPossible_throws: "\<exists>e. uint64NumberIfPossible buf offs = Inl e"
  by (cases "uint64Long buf offs") (simp_all add: uint64NumberIfPossible_def)

lemma int64NumberIfPossible_throws: "\<exists>e. int64NumberIfPossible buf offs = Inl e"
  by (cases "int64Long buf offs") (simp_all add: int64NumberIfPossible_def)

text \<open>
  C1 (fails on the code): the claim says both readers return a number or a decimal string
  for every eight-byte slice.  On the eight bytes of the value 5 both throw a
  \<open>TypeError\<close> instead, since \<open>toNumber\<close> is called on a string; the sibling
  \<open>readLengthCodedNumberExt\<close> keeps the \<open>Long\<close> and returns 5.
\<close>

theorem C1_ifPossible_readers_throw:
  "uint64NumberIfPossible [5, 0, 0, 0, 0, 0, 0, 0] (Some 0) = Inl TypeError
   \<and> int64NumberIfPossible [5, 0, 0, 0, 0, 0, 0, 0] (Some 0) = Inl TypeError"
  by (simp add: uint64NumberIfPossible_def int64NumberIfPossible_def uint64Long_def
      int64Long_def readIntLE_def readUIntLE_def)

subsection \<open>Bytes, words and decimal strings\<close>

lemma bit_length_le: "0 \<le> x \<Longrightarrow> x < 2 ^ k \<Longrightarrow> bit_length x \<le> k"
proof (induction k arbitrary: x)
  case 0
  then have "x = 0" by simp
  then show ?case by (simp add: bit_length.simps)
next
  case (Suc k)
  show ?case
  proof (cases "x \<le> 0")
    case True
    then show ?thesis by (simp add: bit_length.simps)
  next
    case False
    have "x div 2 < 2 ^ k" using Suc.prems by simp
    moreover have "0 \<le> x div 2" using Suc.prems by simp
    ultimately have "bit_length (x div 2) \<le> k" by (rule Suc.IH[rotated])
    then show ?thesis using False by (subst bit_length.simps) simp
  qed
qed

lemma round_int_exact: "0 \<le> x \<Longrightarrow> x < 9007199254740992 \<Longrightarrow> round_int x = x"
  using bit_length_le[of x 53] by (simp add: round_int_def)

lemma to_double_exact: "\<bar>x\<bar> < 9007199254740992 \<Longrightarrow> to_double x = Fin x"
proof -
  assume a: "\<bar>x\<bar> < 9007199254740992"
  then have r: "round_int \<bar>x\<bar> = \<bar>x\<bar>" by (simp add: round_int_exact)
  have "bit_length \<bar>x\<bar> \<le> 53" using a bit_length_le[of "\<bar>x\<bar>" 53] by simp
  then show ?thesis using r by (simp add: to_double_def Let_def)
qed

lemma length_le_bytes [simp]: "length (le_bytes k v) = k"
  by (induction k arbitrary: v) simp_all

lemma le_uint_le_bytes: "le_uint (le_bytes k v) = v mod 256 ^ k"
proof (induction k arbitrary: v)
  case 0
  then show ?case by simp
next
  case (Suc k)
  have "uint (word_of_int (v mod 256) :: 8 word) = v mod 256"
    by (simp add: uint_word_of_int)
  then show ?case using Suc.IH[of "v div 256"]
    by (simp add: zmod_zmult2_eq)
qed

lemma le_bytes_mod: "le_bytes k (v mod 256 ^ k) = le_bytes k v"
proof (induction k arbitrary: v)
  case 0
  then show ?case by simp
next
  case (Suc k)
  have a: "v mod (256 * 256 ^ k) mod 256 = v mod 256"
    by (simp add: mod_mod_cancel)
  have b: "v mod (256 * 256 ^ k) div 256 = (v div 256) mod 256 ^ k"
    by (simp add: zmod_zmult2_eq)
  show ?case using Suc.IH[of "v div 256"] by (simp add: a b)
qed

lemma le_bytes_append: "le_bytes (a + b) v = le_bytes a v @ le_bytes b (v div 256 ^ a)"
proof (induction a arbitrary: v)
  case 0
  then show ?case by simp
next
  case (Suc a)
  show ?case using Suc.IH[of "v div 256"] by (simp add: zdiv_zmult2_eq)
qed

lemma length_buf_store: "off + length bs \<le> length buf \<Longrightarrow> length (buf_store buf off bs) = length buf"
  by (simp add: buf_store_def)

lemma buf_store_append:
  assumes "off + length xs + length ys \<le> length buf"
  shows "buf_store (buf_store buf off xs) (off + length xs) ys = buf_store buf off (xs @ ys)"
proof -
  have l: "length (take off buf) = off" using assms by simp
  have "take (off + length xs) (take off buf @ xs @ drop (off + length xs) buf) = take off buf @ xs"
    using l by simp
  moreover have "drop (off + length xs + length ys) (take off buf @ xs @ drop (off + length xs) buf)
      = drop (off + (length xs + length ys)) buf"
    using l assms by (simp add: add.commute add.left_commute)
  ultimately show ?thesis by (simp add: buf_store_def add.assoc)
qed

lemma take_drop_buf_store:
  assumes "off + length bs \<le> length buf" and "k + n \<le> length bs"
  shows "take n (drop (off + k) (buf_store buf off bs)) = take n (drop k bs)"
proof -
  have l: "length (take off buf) = off" using assms by simp
  have "drop (off + k) (take off buf @ bs @ drop (off + length bs) buf)
      = drop k bs @ drop (off + length bs) buf"
    using l assms by simp
  then show ?thesis using assms by (simp add: buf_store_def)
qed

lemma buf_index_buf_store:
  assumes "off + length bs \<le> length buf" and "k < length bs"
  shows "buf_index (buf_store buf off bs) (off + k) = Some (bs ! k)"
proof -
  have l: "length (take off buf) = off" using assms by simp
  have "(take off buf @ bs @ drop (off + length bs) buf) ! (off + k) = bs ! k"
    using l assms by (simp add: nth_append)
  then show ?thesis using assms by (simp add: buf_store_def buf_index_def)
qed

lemma put_put:
  "offset p + length xs + length ys \<le> length (buffer p) \<Longrightarrow> put (put p xs) ys = put p (xs @ ys)"
  by (simp add: put_def buf_store_append add.assoc)

lemma put_simps [simp]:
  "offset (put p bs) = offset p + length bs"
  "start (put p bs) = start p" "endOff (put p bs) = endOff p"
  "buffer (put p bs) = buf_store (buffer p) (offset p) bs"
  by (simp_all add: put_def)

lemma writeInt8_ok:
  "0 \<le> x \<Longrightarrow> x < 256 \<Longrightarrow> offset p < length (buffer p) \<Longrightarrow>
   writeInt8 p (Fin x) = Inr (put p [word_of_int x])"
  by (simp add: writeInt8_def writeUIntLE_def put_def)

lemma writeInt16_ok:
  "0 \<le> x \<Longrightarrow> x < 65536 \<Longrightarrow> offset p + 2 \<le> length (buffer p) \<Longrightarrow>
   writeInt16 p (Fin x) = Inr (put p (le_bytes 2 x))"
  by (simp add: writeInt16_def writeUIntLE_def put_def)

lemma to_int32_small: "0 \<le> n \<Longrightarrow> n < 2147483648 \<Longrightarrow> to_int32 (Fin n) = n"
  by (simp add: to_int32_def sint_sbintrunc' signed_take_bit_int_eq_self)

lemma and_255: "(n::int) AND 255 = n mod 256"
proof -
  have "n AND mask 8 = take_bit 8 n" by (simp add: take_bit_eq_mask)
  then show ?thesis by (simp add: take_bit_eq_mod mask_eq_exp_minus_1)
qed

lemma writeInt24_ok:
  assumes "0 \<le> n" "n < 16777216" "offset p + 3 \<le> length (buffer p)"
  shows "writeInt24 p (Fin n) = Inr (put p (le_bytes 3 n))"
proof -
  have a: "to_int32 (Fin n) = n" using assms by (simp add: to_int32_small)
  have b: "writeInt8 p (Fin (n mod 256)) = Inr (put p [word_of_int (n mod 256)])"
    using assms by (intro writeInt8_ok) simp_all
  have c: "writeInt16 (put p [word_of_int (n mod 256)]) (Fin (n div 256))
      = Inr (put (put p [word_of_int (n mod 256)]) (le_bytes 2 (n div 256)))"
    using assms by (intro writeInt16_ok) (simp_all add: length_buf_store)
  have d: "put (put p [word_of_int (n mod 256)]) (le_bytes 2 (n div 256)) = put p (le_bytes 3 n)"
    using assms by (subst put_put) (simp_all add: numeral_3_eq_3 numeral_2_eq_2)
  show ?thesis by (simp add: writeInt24_def a and_255 drop_bit_eq_div b c d)
qed

lemma write_narrow_ok:
  assumes "0 \<le> n" "n < 16777216" "offset p + length (encodeLen n) \<le> length (buffer p)"
  shows "write_narrow p (Fin n) = Inr (put p (encodeLen n))"
proof -
  consider "n < 251" | "251 \<le> n" "n < 65536" | "65536 \<le> n" by linarith
  then show ?thesis
  proof cases
    case 1
    then show ?thesis using assms
      by (simp add: write_narrow_def js_less_def encodeLen_def writeInt8_ok)
  next
    case 2
    have a: "writeInt8 p (Fin 252) = Inr (put p [252])"
      using assms 2 writeInt8_ok[of 252 p] by (simp add: encodeLen_def)
    have b: "writeInt16 (put p [252]) (Fin n) = Inr (put (put p [252]) (le_bytes 2 n))"
      using assms 2 by (intro writeInt16_ok) (simp_all add: encodeLen_def length_buf_store)
    have c: "put (put p [252]) (le_bytes 2 n) = put p (252 # le_bytes 2 n)"
      using assms 2 by (subst put_put) (simp_all add: encodeLen_def)
    show ?thesis using 2 by (simp add: write_narrow_def js_less_def encodeLen_def a b c)
  next
    case 3
    have a: "writeInt8 p (Fin 253) = Inr (put p [253])"
      using assms 3 writeInt8_ok[of 253 p] by (simp add: encodeLen_def)
    have b: "writeInt24 (put p [253]) (Fin n) = Inr (put (put p [253]) (le_bytes 3 n))"
      using assms 3 by (intro writeInt24_ok) (simp_all add: encodeLen_def length_buf_store)
    have c: "put (put p [253]) (le_bytes 3 n) = put p (253 # le_bytes 3 n)"
      using assms 3 by (subst put_put) (simp_all add: encodeLen_def)
    show ?thesis using 3 assms by (simp add: write_narrow_def js_less_def encodeLen_def a b c)
  qed
qed

lemma and_push_bit_int: "(x::int) AND push_bit n m = push_bit n (drop_bit n x AND m)"
  by (rule bit_eqI) (auto simp: bit_and_iff bit_push_bit_iff bit_drop_bit_eq)

lemma and_top_byte_int: "(x::int) AND 4278190080 = push_bit 24 (drop_bit 24 x AND 255)"
proof -
  have "push_bit 24 (255::int) = 4278190080" by (simp add: push_bit_eq_mult)
  then show ?thesis using and_push_bit_int[of x 24 255] by simp
qed

lemma top_byte_zero:
  assumes "(w :: 32 word) AND 4278190080 = 0"
  shows "uint w < 16777216"
proof -
  have "uint (w AND 4278190080) = uint w AND uint (4278190080 :: 32 word)" by (rule uint_and)
  moreover have "uint (4278190080 :: 32 word) = 4278190080" by simp
  ultimately have "uint w AND 4278190080 = 0" using assms by simp
  then have "drop_bit 24 (uint w) AND 255 = 0"
    by (simp only: and_top_byte_int push_bit_eq_0_iff)
  then have z: "(uint w div 16777216) mod 256 = 0" by (simp add: and_255 drop_bit_eq_div)
  have "uint w < 4294967296" using uint_lt2p[of w] by simp
  then have u: "uint w div 16777216 < 256" by simp
  have l: "0 \<le> uint w div 16777216" by (simp add: pos_imp_zdiv_nonneg_iff)
  have "(uint w div 16777216) mod 256 = uint w div 16777216"
    by (rule mod_pos_pos_trivial[OF l u])
  then have "uint w div 16777216 = 0" using z by simp
  moreover have "uint w = 16777216 * (uint w div 16777216) + uint w mod 16777216" by simp
  moreover have "uint w mod 16777216 < 16777216" by simp
  ultimately show ?thesis by linarith
qed

lemma ucast_low: "ucast (word_of_int n :: 64 word) = (word_of_int n :: 32 word)"
  by (rule word_uint_eqI) (simp add: unsigned_ucast_eq uint_word_of_int_eq)

lemma ucast_high:
  "ucast (drop_bit 32 (word_of_int n :: 64 word)) = (word_of_int (n div 4294967296) :: 32 word)"
proof (rule word_uint_eqI)
  have "uint (ucast (drop_bit 32 (word_of_int n :: 64 word)) :: 32 word)
      = take_bit 32 (uint (drop_bit 32 (word_of_int n :: 64 word)))"
    by (simp only: unsigned_ucast_eq len_bit0 len_num1 mult_numeral_1_right numeral_times_numeral semiring_norm)
  also have "uint (drop_bit 32 (word_of_int n :: 64 word)) = drop_bit 32 (take_bit 64 (take_bit 64 n))"
    by (simp only: unsigned_drop_bit_eq uint_word_of_int_eq len_bit0 len_num1 mult_numeral_1_right numeral_times_numeral semiring_norm)
  also have "\<dots> = take_bit 32 (drop_bit 32 n)"
    by (simp add: drop_bit_take_bit)
  also have "take_bit 32 (take_bit 32 (drop_bit 32 n)) = take_bit 32 (n div 4294967296)"
    by (simp add: drop_bit_eq_div)
  also have "\<dots> = uint (word_of_int (n div 4294967296) :: 32 word)"
    by (simp add: uint_word_of_int_eq)
  finally show "uint (ucast (drop_bit 32 (word_of_int n :: 64 word)) :: 32 word)
      = uint (word_of_int (n div 4294967296) :: 32 word)" .
qed

lemma sint_mod: "sint (w :: 32 word) mod 4294967296 = uint w"
  by (simp add: uint_sint take_bit_eq_mod)

lemma le_bytes_cong: "a mod 256 ^ k = b mod 256 ^ k \<Longrightarrow> le_bytes k a = le_bytes k b"
  using le_bytes_mod[of k a] le_bytes_mod[of k b] by simp

lemma writeIntLE4_ok:
  assumes "off + 4 \<le> length buf" and "uint (w :: 32 word) = m mod 4294967296"
  shows "writeIntLE 4 (Fin (sint w)) buf off = Inr (buf_store buf off (le_bytes 4 m))"
proof -
  have r: "- 2147483648 \<le> sint w \<and> sint w < 2147483648"
    using sint_ge[of w] sint_lt[of w] by simp
  have "sint w mod 256 ^ 4 = m mod 256 ^ 4" using assms(2) by (simp add: sint_mod)
  then have "le_bytes 4 (sint w mod 4294967296) = le_bytes 4 m"
    using le_bytes_mod[of 4 "sint w"] le_bytes_cong[of "sint w" 4 m] by simp
  then show ?thesis using r assms(1) by (simp add: writeIntLE_def)
qed

lemma write_wide_ok:
  assumes n: "16777216 \<le> n" "n < 18446744073709551616"
    and space: "offset p + 9 \<le> length (buffer p)"
    and lv: "longValue_of arg = Inr (Some l)"
    and lo: "low l = word_of_int n"
    and hi: "high l = word_of_int (n div 4294967296)"
    and nn: "arg \<noteq> Null"
  shows "writeLengthCodedNumber p arg = Inr (put p (254 # le_bytes 8 n))"
proof -
  have notsmall: "\<not> (high l = 0 \<and> low l AND 4278190080 = 0)"
  proof
    assume h: "high l = 0 \<and> low l AND 4278190080 = 0"
    then have "uint (word_of_int (n div 4294967296) :: 32 word) = 0" using hi by simp
    then have z: "(n div 4294967296) mod 4294967296 = 0" by (simp add: uint_word_of_int)
    have d: "n = 4294967296 * (n div 4294967296) + n mod 4294967296" by simp
    have m: "0 \<le> n mod 4294967296" "n mod 4294967296 < 4294967296" by simp_all
    have u: "n div 4294967296 < 4294967296" using n d m by linarith
    have l0: "0 \<le> n div 4294967296" using n d m by linarith
    have "(n div 4294967296) mod 4294967296 = n div 4294967296"
      by (rule mod_pos_pos_trivial[OF l0 u])
    then have "n div 4294967296 = 0" using z by simp
    then have "n < 4294967296" using d m by linarith
    then have "uint (low l) = n" using lo n by (simp add: uint_word_of_int)
    moreover have "uint (low l) < 16777216" using h top_byte_zero by blast
    ultimately show False using n by simp
  qed
  let ?p1 = "put p [254]"
  have w8: "writeInt8 p (Fin 254) = Inr ?p1"
    using space writeInt8_ok[of 254 p] by simp
  have len1: "length (buffer ?p1) = length (buffer p)"
    using space by (simp add: length_buf_store)
  have wlo: "writeIntLE 4 (Fin (sint (low l))) (buffer ?p1) (offset ?p1)
      = Inr (buf_store (buffer ?p1) (offset ?p1) (le_bytes 4 n))"
    using space len1 lo by (intro writeIntLE4_ok) (simp_all add: uint_word_of_int)
  let ?b1 = "buf_store (buffer ?p1) (offset ?p1) (le_bytes 4 n)"
  have len2: "length ?b1 = length (buffer p)"
    using space len1 by (simp add: length_buf_store)
  have whi: "writeIntLE 4 (Fin (sint (high l))) ?b1 (offset ?p1 + 4)
      = Inr (buf_store ?b1 (offset ?p1 + 4) (le_bytes 4 (n div 4294967296)))"
    using space len2 hi by (intro writeIntLE4_ok) (simp_all add: uint_word_of_int)
  have app: "le_bytes 8 n = le_bytes 4 n @ le_bytes 4 (n div 4294967296)"
    using le_bytes_append[of 4 4 n] by simp
  have comb: "buf_store ?b1 (offset ?p1 + 4) (le_bytes 4 (n div 4294967296))
      = buf_store (buffer ?p1) (offset ?p1) (le_bytes 8 n)"
    using space len1 buf_store_append[of "offset ?p1" "le_bytes 4 n" "le_bytes 4 (n div 4294967296)" "buffer ?p1"]
    by (simp add: app)
  have fin: "?p1\<lparr>buffer := buf_store (buffer ?p1) (offset ?p1) (le_bytes 8 n), offset := offset ?p1 + 8\<rparr>
      = put p (254 # le_bytes 8 n)"
  proof -
    have "put ?p1 (le_bytes 8 n) = put p ([254] @ le_bytes 8 n)"
      using space by (intro put_put) simp
    then show ?thesis by (simp add: put_def)
  qed
  have step: "writeLengthCodedNumber p arg =
      andThen (writeInt8 p (Fin 254)) (\<lambda>p1.
      andThen (writeIntLE 4 (Fin (sint (low l))) (buffer p1) (offset p1)) (\<lambda>b1.
      andThen (writeIntLE 4 (Fin (sint (high l))) b1 (offset p1 + 4)) (\<lambda>b2.
      Inr (p1\<lparr>buffer := b2, offset := offset p1 + 8\<rparr>))))"
    using nn notsmall by (auto simp add: writeLengthCodedNumber_def lv)
  show ?thesis
    unfolding step by (simp add: w8 wlo whi comb fin del: put_simps)
qed

lemma of_char_digit_char: "0 \<le> d \<Longrightarrow> d < 10 \<Longrightarrow> (of_char (digit_char d) :: int) = 48 + d"
  by (simp add: digit_char_def)

lemma is_digit_digit_char: "0 \<le> d \<Longrightarrow> d < 10 \<Longrightarrow> is_digit (digit_char d)"
  by (simp add: is_digit_def of_char_digit_char)

lemma dec_nat_digits: "0 \<le> n \<Longrightarrow> list_all is_digit (dec_nat n)"
proof (induction n rule: dec_nat.induct)
  case (1 n)
  show ?case
  proof (cases "n < 10")
    case True
    then show ?thesis using 1 by (subst dec_nat.simps) (simp add: is_digit_digit_char)
  next
    case False
    then have "list_all is_digit (dec_nat (n div 10))" using 1 by simp
    moreover have "is_digit (digit_char (n mod 10))" by (simp add: is_digit_digit_char)
    ultimately show ?thesis using False by (subst dec_nat.simps) simp
  qed
qed

lemma dec_nat_nonempty: "dec_nat n \<noteq> []"
  by (subst dec_nat.simps) simp

lemma dec_val_snoc: "dec_val (xs @ [c]) = dec_val xs * 10 + (of_char c - 48)"
  by (simp add: dec_val_def)

lemma dec_val_dec_nat: "0 \<le> n \<Longrightarrow> dec_val (dec_nat n) = n"
proof (induction n rule: dec_nat.induct)
  case (1 n)
  show ?case
  proof (cases "n < 10")
    case True
    then show ?thesis using 1 by (subst dec_nat.simps) (simp add: dec_val_def of_char_digit_char)
  next
    case False
    then have "dec_val (dec_nat (n div 10)) = n div 10" using 1 by simp
    then show ?thesis using False
      by (subst dec_nat.simps) (simp add: dec_val_snoc of_char_digit_char)
  qed
qed

lemma dec_val_foldl: "foldl (\<lambda>acc c. acc * 10 + (of_char c - 48)) a ys = a * 10 ^ length ys + dec_val ys"
proof (induction ys arbitrary: a rule: rev_induct)
  case Nil
  then show ?case by (simp add: dec_val_def)
next
  case (snoc y ys)
  then show ?case by (simp add: dec_val_snoc algebra_simps)
qed

lemma dec_val_append: "dec_val (xs @ ys) = dec_val xs * 10 ^ length ys + dec_val ys"
  using dec_val_foldl[of "dec_val xs" ys] by (simp add: dec_val_def)

lemma dec_val_bounds: "list_all is_digit s \<Longrightarrow> 0 \<le> dec_val s \<and> dec_val s < 10 ^ length s"
proof (induction s rule: rev_induct)
  case Nil
  then show ?case by (simp add: dec_val_def)
next
  case (snoc c s)
  then have d: "48 \<le> (of_char c :: int)" "(of_char c :: int) \<le> 57" by (simp_all add: is_digit_def)
  from snoc have "0 \<le> dec_val s" "dec_val s + 1 \<le> 10 ^ length s" by simp_all
  then have "0 \<le> dec_val s * 10" "dec_val s * 10 + 10 \<le> 10 ^ length s * 10" by simp_all
  then show ?case using d by (simp add: dec_val_snoc)
qed

lemma not_white_digit: "is_digit c \<Longrightarrow> \<not> is_white c"
  by (auto simp add: is_digit_def is_white_def)

lemma js_parseInt_digits:
  assumes "list_all is_digit z" "z \<noteq> []"
  shows "js_parseInt z = to_double (dec_val z)"
proof -
  obtain c cs where z: "z = c # cs" using assms(2) by (cases z) auto
  have d: "is_digit c" using assms z by simp
  have nw: "dropWhile is_white z = z" using d z by (simp add: not_white_digit)
  have ns: "c \<noteq> CHR ''-''" "c \<noteq> CHR ''+''" using d by (auto simp add: is_digit_def)
  have tw: "takeWhile is_digit z = z" using assms(1) by (simp add: takeWhile_eq_all_conv list_all_iff)
  have hdz: "hd z = c" using z by simp
  show ?thesis unfolding js_parseInt_def nw Let_def hdz
    using assms(2) ns by (simp add: tw)
qed

lemma fromString_loop_digits:
  "list_all is_digit s \<Longrightarrow> fromString_loop s acc = acc * 10 ^ length s + word_of_int (dec_val s)"
proof (induction s acc rule: fromString_loop.induct)
  case (1 s acc)
  show ?case
  proof (cases "s = []")
    case True
    then show ?thesis by (subst fromString_loop.simps) (simp add: dec_val_def)
  next
    case False
    let ?size = "min 8 (length s)"
    let ?c = "take ?size s"
    have split: "s = ?c @ drop 8 s" by (simp add: min_def)
    have cd: "list_all is_digit ?c" using "1.prems" by (simp add: list_all_iff) (meson in_set_takeD)
    have dd: "list_all is_digit (drop 8 s)" using "1.prems" by (simp add: list_all_iff) (meson in_set_dropD)
    have cne: "?c \<noteq> []" using False by simp
    have lc: "length ?c = ?size" by simp
    have b: "0 \<le> dec_val ?c" "dec_val ?c < 10 ^ ?size" using dec_val_bounds[OF cd] lc by simp_all
    have "(10::int) ^ ?size \<le> 10 ^ 8" by (rule power_increasing) simp_all
    then have "dec_val ?c < 9007199254740992" using b by simp
    then have pi: "js_parseInt ?c = Fin (dec_val ?c)"
      using b js_parseInt_digits[OF cd cne] by (simp add: to_double_exact)
    have ih: "fromString_loop (drop 8 s) (acc * 10 ^ ?size + word_of_int (dec_val ?c))
        = (acc * 10 ^ ?size + word_of_int (dec_val ?c)) * 10 ^ length (drop 8 s) + word_of_int (dec_val (drop 8 s))"
      using "1.IH"[OF False refl refl dd] pi by simp
    have dv: "dec_val s = dec_val ?c * 10 ^ length (drop 8 s) + dec_val (drop 8 s)"
      using dec_val_append[of ?c "drop 8 s"] split by simp
    have ln: "length s = ?size + length (drop 8 s)" by (simp add: min_def)
    have "fromString_loop s acc = fromString_loop (drop 8 s) (acc * 10 ^ ?size + word_of_int (dec_val ?c))"
      using False pi by (subst fromString_loop.simps) (simp add: Let_def)
    also have "\<dots> = acc * 10 ^ length s + word_of_int (dec_val s)"
      unfolding ih by (subst dv, subst (2) ln) (simp add: algebra_simps power_add)
    finally show ?thesis .
  qed
qed

lemma digit_not_special: "is_digit c \<Longrightarrow> c \<noteq> CHR ''-'' \<and> c \<noteq> CHR ''+'' \<and> c \<noteq> CHR ''N'' \<and> c \<noteq> CHR ''I''"
  by (auto simp add: is_digit_def)

lemma Long_fromString_bits_digits:
  assumes "list_all is_digit s" "s \<noteq> []"
  shows "Long_fromString_bits s = Inr (word_of_int (dec_val s))"
proof -
  obtain c cs where z: "s = c # cs" using assms(2) by (cases s) auto
  have d: "is_digit c" using assms z by simp
  have nh: "CHR ''-'' \<notin> set cs" using assms(1) z digit_not_special by (auto simp add: list_all_iff)
  show ?thesis using digit_not_special[OF d] nh fromString_loop_digits[OF assms(1), of 0]
    by (simp add: z)
qed

lemma Long_fromString_dec_nat:
  assumes "0 \<le> n"
  shows "Long_fromString_unsigned (dec_nat n)
    = Inr \<lparr>low = word_of_int n, high = word_of_int (n div 4294967296), unsigned = True\<rparr>"
  using Long_fromString_bits_digits[OF dec_nat_digits[OF assms] dec_nat_nonempty]
  by (simp add: Long_fromString_unsigned_def dec_val_dec_nat[OF assms] ucast_low ucast_high)

lemma length_encodeLen: "length (encodeLen n) \<le> 9"
  by (simp add: encodeLen_def)

lemma dec_nat_long:
  assumes "10000000 \<le> n"
  shows "8 \<le> length (dec_nat n)"
proof (rule ccontr)
  assume "\<not> 8 \<le> length (dec_nat n)"
  then have l: "length (dec_nat n) \<le> 7" by simp
  have n0: "0 \<le> n" using assms by simp
  have "n < 10 ^ length (dec_nat n)"
    using dec_val_bounds[OF dec_nat_digits[OF n0]] dec_val_dec_nat[OF n0] by simp
  moreover have "(10::int) ^ length (dec_nat n) \<le> 10 ^ 7"
    using l by (intro power_increasing) simp_all
  ultimately show False using assms by simp
qed

lemma write_ok:
  assumes "0 \<le> n" "n < 18446744073709551616" "offset p + 9 \<le> length (buffer p)"
  shows "writeLengthCodedNumber p (lcn_arg n) = Inr (put p (encodeLen n))"
proof -
  consider "n < 16777216" | "16777216 \<le> n" "n < 9007199254740992" | "9007199254740992 \<le> n"
    by linarith
  then show ?thesis
  proof cases
    case 1
    have "offset p + length (encodeLen n) \<le> length (buffer p)"
      using assms(3) length_encodeLen[of n] by linarith
    then have "write_narrow p (Fin n) = Inr (put p (encodeLen n))"
      using assms(1) 1 by (intro write_narrow_ok)
    then show ?thesis using 1
      by (simp add: lcn_arg_def writeLengthCodedNumber_def longValue_of_def js_greater_def
          small_number_def)
  next
    case 2
    have lv: "longValue_of (lcn_arg n) = Inr (Some (Long_fromNumber_unsigned (Fin n)))"
      using 2 by (simp add: lcn_arg_def longValue_of_def js_greater_def)
    have "writeLengthCodedNumber p (lcn_arg n) = Inr (put p (254 # le_bytes 8 n))"
      using 2 assms
      by (intro write_wide_ok[OF _ _ _ lv])
        (simp_all add: Long_fromNumber_unsigned_def lcn_arg_def)
    then show ?thesis using 2 by (simp add: encodeLen_def)
  next
    case 3
    have "8 \<le> length (dec_nat n)" using 3 by (intro dec_nat_long) simp
    then have lv: "longValue_of (lcn_arg n)
        = Inr (Some \<lparr>low = word_of_int n, high = word_of_int (n div 4294967296), unsigned = True\<rparr>)"
      using 3 assms(1) by (simp add: lcn_arg_def longValue_of_def Long_fromString_dec_nat)
    have "writeLengthCodedNumber p (lcn_arg n) = Inr (put p (254 # le_bytes 8 n))"
      using 3 assms
      by (intro write_wide_ok[OF _ _ _ lv]) (simp_all add: lcn_arg_def)
    then show ?thesis using 3 by (simp add: encodeLen_def)
  qed
qed

lemma advance_advance [simp]: "advance (advance q a) b = advance q (a + b)"
  by (simp add: advance_def add.assoc)

lemma bytes_at_split:
  assumes "bytes_at q (xs @ ys)"
  shows "take (length xs) (drop (offset q) (buffer q)) = xs"
    and "bytes_at (advance q (length xs)) ys"
proof -
  have l: "offset q + (length xs + length ys) \<le> length (buffer q)"
    and t: "take (length xs + length ys) (drop (offset q) (buffer q)) = xs @ ys"
    using assms by (simp_all add: bytes_at_def)
  have "take (length xs) (take (length xs + length ys) (drop (offset q) (buffer q))) = xs"
    unfolding t by simp
  then show "take (length xs) (drop (offset q) (buffer q)) = xs" by (simp add: min_def)
  have "drop (length xs) (take (length xs + length ys) (drop (offset q) (buffer q))) = ys"
    unfolding t by simp
  then have "take (length ys) (drop (offset q + length xs) (buffer q)) = ys"
    by (simp add: drop_take add.commute)
  then show "bytes_at (advance q (length xs)) ys"
    using l by (simp add: bytes_at_def advance_def)
qed

lemma readInt8_at:
  assumes "bytes_at q (b # bs)"
  shows "readInt8 q = (Some b, advance q 1)" and "bytes_at (advance q 1) bs"
proof -
  have t: "take (length [b]) (drop (offset q) (buffer q)) = [b]"
    and a: "bytes_at (advance q (length [b])) bs"
    using bytes_at_split[of q "[b]" bs] assms by simp_all
  have l: "offset q < length (buffer q)" using assms by (simp add: bytes_at_def)
  then have "buffer q ! offset q = b" using t by (simp add: take_Suc_conv_app_nth hd_drop_conv_nth take_Suc)
  then show "readInt8 q = (Some b, advance q 1)"
    using l by (simp add: readInt8_def buf_index_def advance_def)
  show "bytes_at (advance q 1) bs" using a by simp
qed

lemma readInt32_at:
  assumes "bytes_at q (xs @ ys)" "length xs = 4"
  shows "readInt32 q = Inr (le_uint xs, advance q 4)" and "bytes_at (advance q 4) ys"
proof -
  have t: "take 4 (drop (offset q) (buffer q)) = xs"
    and a: "bytes_at (advance q 4) ys"
    using bytes_at_split[OF assms(1)] assms(2) by simp_all
  have l: "offset q + 4 \<le> length (buffer q)" using assms by (simp add: bytes_at_def)
  show "readInt32 q = Inr (le_uint xs, advance q 4)"
    using l t by (simp add: readInt32_def readUIntLE_def advance_def)
  show "bytes_at (advance q 4) ys" by (rule a)
qed

lemma bytes_at_put:
  assumes "offset p + length bs \<le> length (buffer p)"
  shows "bytes_at ((put p bs)\<lparr>offset := offset p\<rparr>) bs"
  using assms take_drop_buf_store[of "offset p" bs "buffer p" 0 "length bs"]
  by (simp add: bytes_at_def length_buf_store)

lemma uint_byte: "0 \<le> x \<Longrightarrow> x < 256 \<Longrightarrow> uint (word_of_int x :: 8 word) = x"
  by (simp add: uint_word_of_int)

lemma div_mod_bounds:
  fixes n :: int
  assumes "0 \<le> n" "n < c * d" "0 < c" "0 < d"
  shows "0 \<le> n div c" "n div c < d"
proof -
  show "0 \<le> n div c" using assms by (simp add: pos_imp_zdiv_nonneg_iff)
  show "n div c < d"
  proof (rule ccontr)
    assume "\<not> n div c < d"
    then have "d \<le> n div c" by simp
    then have "c * d \<le> c * (n div c)" using assms(3) by (simp add: mult_left_mono)
    moreover have "c * (n div c) + n mod c = n" by simp
    moreover have "0 \<le> n mod c" using assms(3) by simp
    ultimately show False using assms(2) by linarith
  qed
qed

lemma read_one:
  assumes "0 \<le> n" "n < 251" "bytes_at q (encodeLen n)"
  shows "readLengthCodedNumber q False False = Inr (Num (Fin n), advance q 1)"
proof -
  have e: "encodeLen n = [word_of_int n]" using assms by (simp add: encodeLen_def)
  have r: "readInt8 q = (Some (word_of_int n), advance q 1)"
    using readInt8_at(1)[of q "word_of_int n" "[]"] assms(3) e by simp
  have u: "uint (word_of_int n :: 8 word) = n" using assms by (simp add: uint_byte)
  then have "(word_of_int n :: 8 word) < 251" using assms by (simp add: word_less_alt)
  then show ?thesis using r u by (simp add: readLengthCodedNumber_def)
qed

lemma read_two:
  assumes "251 \<le> n" "n < 65536" "bytes_at q (encodeLen n)"
  shows "readLengthCodedNumber q False False = Inr (Num (Fin n), advance q 3)"
proof -
  let ?b0 = "word_of_int (n mod 256) :: byte"
  let ?b1 = "word_of_int (n div 256 mod 256) :: byte"
  have e: "encodeLen n = [252, ?b0, ?b1]"
    using assms by (simp add: encodeLen_def numeral_2_eq_2)
  have a0: "bytes_at q [252, ?b0, ?b1]" using assms(3) e by simp
  have r0: "readInt8 q = (Some 252, advance q 1)" and a1: "bytes_at (advance q 1) [?b0, ?b1]"
    using readInt8_at[OF a0] by (simp_all add: eval_nat_numeral)
  have r1: "readInt8 (advance q 1) = (Some ?b0, advance q 2)" and a2: "bytes_at (advance q 2) [?b1]"
    using readInt8_at[OF a1] by (simp_all add: eval_nat_numeral)
  have r2: "readInt8 (advance q 2) = (Some ?b1, advance q 3)"
    using readInt8_at(1)[OF a2] by (simp add: eval_nat_numeral)
  have d: "0 \<le> n div 256" "n div 256 < 256" using assms div_mod_bounds[of n 256 256] by simp_all
  have u0: "uint ?b0 = n mod 256" by (simp add: uint_byte)
  have u1: "uint (word_of_int (n div 256) :: byte) = n div 256" using d by (simp add: uint_byte)
  have u1': "uint ?b1 = n div 256" using d by (simp add: uint_byte)
  have v: "n mod 256 + push_bit 8 (n div 256) = n" by (simp add: push_bit_eq_mult)
  have "js_add (byte_num (Some ?b0)) (byte_shl (Some ?b1) 8) = Fin n"
    using assms by (simp add: byte_num_def byte_shl_def u0 u1 u1' v to_double_exact del: push_bit_eq_mult)
  then show ?thesis
    by (simp add: readLengthCodedNumber_def readLengthCodedNumberExt_def r0 r1 r2 del: One_nat_def)
qed

lemma read_three:
  assumes "65536 \<le> n" "n < 16777216" "bytes_at q (encodeLen n)"
  shows "readLengthCodedNumber q False False = Inr (Num (Fin n), advance q 4)"
proof -
  let ?b0 = "word_of_int (n mod 256) :: byte"
  let ?b1 = "word_of_int (n div 256 mod 256) :: byte"
  let ?b2 = "word_of_int (n div 256 div 256 mod 256) :: byte"
  have e: "encodeLen n = [253, ?b0, ?b1, ?b2]"
    using assms by (simp add: encodeLen_def numeral_3_eq_3)
  have a0: "bytes_at q [253, ?b0, ?b1, ?b2]" using assms(3) e by simp
  have r0: "readInt8 q = (Some 253, advance q 1)" and a1: "bytes_at (advance q 1) [?b0, ?b1, ?b2]"
    using readInt8_at[OF a0] by (simp_all add: eval_nat_numeral)
  have r1: "readInt8 (advance q 1) = (Some ?b0, advance q 2)" and a2: "bytes_at (advance q 2) [?b1, ?b2]"
    using readInt8_at[OF a1] by (simp_all add: eval_nat_numeral)
  have r2: "readInt8 (advance q 2) = (Some ?b1, advance q 3)" and a3: "bytes_at (advance q 3) [?b2]"
    using readInt8_at[OF a2] by (simp_all add: eval_nat_numeral)
  have r3: "readInt8 (advance q 3) = (Some ?b2, advance q 4)"
    using readInt8_at(1)[OF a3] by (simp add: eval_nat_numeral)
  have d: "0 \<le> n div 256 div 256" "n div 256 div 256 < 256"
    using assms div_mod_bounds[of n 65536 256] by (simp_all add: zdiv_zmult2_eq)
  have u0: "uint ?b0 = n mod 256" by (simp add: uint_byte)
  have u1: "uint ?b1 = n div 256 mod 256" by (simp add: uint_byte)
  have u2: "uint ?b2 = n div 256 div 256" using d by (simp add: uint_byte)
  have u2': "uint (word_of_int (n div 256 div 256) :: byte) = n div 256 div 256"
    using d by (simp add: uint_byte)
  have s1: "n mod 256 + push_bit 8 (n div 256 mod 256) = n mod 65536"
    by (simp add: push_bit_eq_mult zmod_zmult2_eq[of 256 n 256, simplified])
  have dd: "n div 256 div 256 = n div 65536" using zdiv_zmult2_eq[of 256 n 256] by simp
  have s2: "n mod 65536 + push_bit 16 (n div 256 div 256) = n"
    unfolding dd by (simp add: push_bit_eq_mult)
  have m: "0 \<le> n mod 65536" "n mod 65536 < 65536" by simp_all
  have "js_add (js_add (byte_num (Some ?b0)) (byte_shl (Some ?b1) 8)) (byte_shl (Some ?b2) 16) = Fin n"
    using assms m
    by (simp add: byte_num_def byte_shl_def u0 u1 u2 u2' s1 s2 to_double_exact del: push_bit_eq_mult)
  then show ?thesis
    by (simp add: readLengthCodedNumber_def readLengthCodedNumberExt_def r0 r1 r2 r3 del: One_nat_def)
qed

lemma read_eight:
  assumes "16777216 \<le> n" "n < 18446744073709551616" "bytes_at q (encodeLen n)"
  shows "readLengthCodedNumber q False False = Inr (decodedLen n, advance q 9)"
proof -
  let ?w0 = "n mod 4294967296"
  let ?w1 = "n div 4294967296"
  have app: "le_bytes 8 n = le_bytes 4 n @ le_bytes 4 ?w1"
    using le_bytes_append[of 4 4 n] by simp
  have a0: "bytes_at q (254 # (le_bytes 4 n @ le_bytes 4 ?w1))"
    using assms by (simp add: encodeLen_def app)
  have r0: "readInt8 q = (Some 254, advance q 1)"
    and a1: "bytes_at (advance q 1) (le_bytes 4 n @ (le_bytes 4 ?w1 @ []))"
    using readInt8_at[OF a0] by simp_all
  have r1: "readInt32 (advance q 1) = Inr (le_uint (le_bytes 4 n), advance q 5)"
    and a2: "bytes_at (advance q 5) (le_bytes 4 ?w1 @ [])"
    using readInt32_at[OF a1] by simp_all
  have r2: "readInt32 (advance q 5) = Inr (le_uint (le_bytes 4 ?w1), advance q 9)"
    using readInt32_at(1)[OF a2] by simp
  have b1: "0 \<le> ?w1" "?w1 < 4294967296"
    using assms div_mod_bounds[of n 4294967296 4294967296] by simp_all
  have b0: "0 \<le> ?w0" "?w0 < 4294967296" by simp_all
  have w0: "le_uint (le_bytes 4 n) = ?w0" by (simp add: le_uint_le_bytes)
  have w1: "le_uint (le_bytes 4 ?w1) = ?w1" using b1 by (simp add: le_uint_le_bytes)
  have n: "n = ?w1 * 4294967296 + ?w0" by simp
  have res: "(if ?w1 = 0 then Num (Fin ?w0)
      else if ?w1 < 2097152 then Num (js_add (js_mul (Fin ?w1) (Fin 4294967296)) (Fin ?w0))
      else (let res = Long_new ?w0 ?w1 True;
                resNumber = Long_toNumber res;
                resString = Long_toString res
            in if number_toString resNumber = resString then Num resNumber else Str resString))
      = decodedLen n"
  proof -
    consider "?w1 = 0" | "0 < ?w1" "?w1 < 2097152" | "2097152 \<le> ?w1" using b1 by linarith
    then show ?thesis
    proof cases
      case 1
      then have "n = ?w0" using n by simp
      then have "n < 9007199254740992" using b0 by linarith
      then show ?thesis using 1 \<open>n = ?w0\<close> by (simp add: decodedLen_def)
    next
      case 2
      have lt: "n < 9007199254740992" using 2 n b0 by linarith
      have m: "\<bar>?w1 * 4294967296\<bar> < 9007199254740992" using 2 by simp
      have "js_mul (Fin ?w1) (Fin 4294967296) = Fin (?w1 * 4294967296)"
        using to_double_exact[OF m] by simp
      moreover have "to_double (?w1 * 4294967296 + ?w0) = Fin n"
        using lt assms(1) to_double_exact[of n] n by simp
      ultimately have "js_add (js_mul (Fin ?w1) (Fin 4294967296)) (Fin ?w0) = Fin n"
        by simp
      then show ?thesis using 2 lt by (simp add: decodedLen_def)
    next
      case 3
      have ge: "9007199254740992 \<le> n" using 3 n b0 by linarith
      have "long_value (Long_new ?w0 ?w1 True) = ?w1 * 4294967296 + ?w0"
        using b1 by (simp add: long_value_def Long_new_def uint_word_of_int)
      then have lv: "long_value (Long_new ?w0 ?w1 True) = n" using n by simp
      have "dec_int n = dec_nat n" using assms(1) by (simp add: dec_int_def)
      then show ?thesis using 3 ge
        by (simp add: decodedLen_def Long_toNumber_def Long_toString_def lv Let_def)
    qed
  qed
  show ?thesis
    unfolding res[symmetric]
    by (simp add: readLengthCodedNumber_def readLengthCodedNumberExt_def r0 r1 r2 w0 w1 Let_def
        del: One_nat_def)
qed

lemma read_ok:
  assumes "0 \<le> n" "n < 18446744073709551616" "bytes_at q (encodeLen n)"
  shows "readLengthCodedNumber q False False = Inr (decodedLen n, advance q (length (encodeLen n)))"
proof -
  consider "n < 251" | "251 \<le> n" "n < 65536" | "65536 \<le> n" "n < 16777216" | "16777216 \<le> n"
    by linarith
  then show ?thesis
  proof cases
    case 1
    then show ?thesis using read_one[OF assms(1) 1 assms(3)]
      by (simp add: decodedLen_def encodeLen_def)
  next
    case 2
    then show ?thesis using read_two[OF 2 assms(3)]
      by (simp add: decodedLen_def encodeLen_def)
  next
    case 3
    then show ?thesis using read_three[OF 3 assms(3)]
      by (simp add: decodedLen_def encodeLen_def)
  next
    case 4
    then show ?thesis using read_eight[OF 4 assms(2) assms(3)]
      by (simp add: encodeLen_def)
  qed
qed

subsection \<open>Length-coded numbers: writing and reading back\<close>

lemma put_rewind: "(put p bs)\<lparr>offset := offset p\<rparr> = p\<lparr>buffer := buf_store (buffer p) (offset p) bs\<rparr>"
  by (simp add: put_def)

lemma advance_put_rewind: "advance ((put p bs)\<lparr>offset := offset p\<rparr>) (length bs) = put p bs"
  by (simp add: put_def advance_def)

lemma lcn_roundtrip:
  assumes "0 \<le> n" "n < 18446744073709551616" "offset p + 9 \<le> length (buffer p)"
  shows "writeLengthCodedNumber p (lcn_arg n) = Inr (put p (encodeLen n))"
    and "readLengthCodedNumber ((put p (encodeLen n))\<lparr>offset := offset p\<rparr>) False False
           = Inr (decodedLen n, put p (encodeLen n))"
    and "write_then_read p (lcn_arg n) = Inr (decodedLen n)"
proof -
  show w: "writeLengthCodedNumber p (lcn_arg n) = Inr (put p (encodeLen n))"
    by (rule write_ok[OF assms])
  have "offset p + length (encodeLen n) \<le> length (buffer p)"
    using assms(3) length_encodeLen[of n] by linarith
  then have "bytes_at ((put p (encodeLen n))\<lparr>offset := offset p\<rparr>) (encodeLen n)"
    by (rule bytes_at_put)
  then show r: "readLengthCodedNumber ((put p (encodeLen n))\<lparr>offset := offset p\<rparr>) False False
           = Inr (decodedLen n, put p (encodeLen n))"
    using read_ok[OF assms(1,2)] by (simp add: advance_put_rewind)
  show "write_then_read p (lcn_arg n) = Inr (decodedLen n)"
    by (simp add: write_then_read_def w r)
qed

lemma decodedLen_big: "decodedLen 9223372036854776000 = Num (Fin 9223372036854775808)"
  by code_simp

lemma exact_big: "exact_or_string 9223372036854776000 = Str ''9223372036854776000''"
  by code_simp

lemma encodeLen_big: "encodeLen 9223372036854776000 = [254, 192, 0, 0, 0, 0, 0, 0, 128]"
  by code_simp

lemma lcn_arg_big: "lcn_arg 9223372036854776000 = Str ''9223372036854776000''"
  by code_simp

text \<open>
  C2 (fails on the code): the claim says the round trip yields \<open>n\<close> as a number when a
  double holds \<open>n\<close> exactly and otherwise as its decimal string.  For
  \<open>n = 9223372036854776000\<close>, which no double holds, the writer stores
  \<open>FE C0 00 00 00 00 00 00 80\<close> and the reader returns the number
  \<open>9223372036854775808\<close>, another value: the nearest double prints as
  \<open>9223372036854776000\<close>, the very string of \<open>n\<close>, so the comparison
  \<open>resNumber.toString() === resString\<close> in \<open>readLengthCodedNumberExt\<close> succeeds
  though the number is not exact.
\<close>

theorem C2_roundtrip_loses_value:
  "writeLengthCodedNumber (Packet 0 (replicate 16 0) 0 16) (Str ''9223372036854776000'')
     = Inr (put (Packet 0 (replicate 16 0) 0 16) [254, 192, 0, 0, 0, 0, 0, 0, 128])
   \<and> write_then_read (Packet 0 (replicate 16 0) 0 16) (Str ''9223372036854776000'')
     = Inr (Num (Fin 9223372036854775808))
   \<and> write_then_read (Packet 0 (replicate 16 0) 0 16) (Str ''9223372036854776000'')
     \<noteq> Inr (exact_or_string 9223372036854776000)
   \<and> exact_or_string 9223372036854776000 = Str ''9223372036854776000''"
proof -
  have "write_then_read (Packet 0 (replicate 16 0) 0 16) (lcn_arg 9223372036854776000)
      = Inr (decodedLen 9223372036854776000)"
    by (rule lcn_roundtrip(3)) (simp_all add: Packet_def)
  moreover have "writeLengthCodedNumber (Packet 0 (replicate 16 0) 0 16)
        (lcn_arg 9223372036854776000)
      = Inr (put (Packet 0 (replicate 16 0) 0 16) (encodeLen 9223372036854776000))"
    by (rule lcn_roundtrip(1)) (simp_all add: Packet_def)
  ultimately show ?thesis
    by (simp add: decodedLen_big exact_big lcn_arg_big encodeLen_big)
qed

text \<open>
  What does hold of the length-coded integer: for every \<open>0 \<le> n < 2^64\<close>, handed over
  as a number below \<open>2^53\<close> and as its decimal string from there on, and a packet with
  nine bytes of room, \<open>writeLengthCodedNumber\<close> stores the narrowest of the specified
  forms at the cursor (1, 3, 4 or 9 bytes, the tag \<open>0xFE\<close> exactly for
  \<open>n > 0xFFFFFF\<close>) and advances by its length; \<open>readLengthCodedNumber\<close> from the same
  position consumes the same bytes and returns \<open>decodedLen n\<close>.
\<close>

lemma lcn_roundtrip_narrowest:
  assumes "0 \<le> n" "n < 18446744073709551616" "offset p + 9 \<le> length (buffer p)"
  shows "\<exists>p1. writeLengthCodedNumber p (lcn_arg n) = Inr p1
       \<and> buffer p1 = buf_store (buffer p) (offset p) (encodeLen n)
       \<and> offset p1 = offset p + length (encodeLen n)
       \<and> readLengthCodedNumber (p1\<lparr>offset := offset p\<rparr>) False False = Inr (decodedLen n, p1)
       \<and> length (encodeLen n) = (if n < 251 then 1 else if n < 65536 then 3
                                  else if n < 16777216 then 4 else 9)
       \<and> (hd (encodeLen n) = 254) = (16777215 < n)"
proof -
  have "hd (encodeLen n) = 254 \<longleftrightarrow> 16777215 < n"
  proof (cases "n < 251")
    case True
    then have "uint (word_of_int n :: byte) = n" using assms(1) by (simp add: uint_byte)
    then have "(word_of_int n :: byte) \<noteq> 254" using True by auto
    then show ?thesis using True by (simp add: encodeLen_def)
  next
    case False
    then show ?thesis by (simp add: encodeLen_def)
  qed
  moreover have "length (encodeLen n) = (if n < 251 then 1 else if n < 65536 then 3
                                  else if n < 16777216 then 4 else 9)"
    by (simp add: encodeLen_def)
  ultimately show ?thesis
    using lcn_roundtrip(1,2)[OF assms] by (intro exI[of _ "put p (encodeLen n)"]) simp
qed

text \<open>
  C3 (fails on the code): the claim says \<open>lengthCodedNumberLength n\<close> is the number of
  bytes \<open>writeLengthCodedNumber\<close> writes.  For \<open>n = 65536\<close> the helper answers 5 while
  the writer stores the four bytes \<open>FD 00 00 01\<close> and advances the cursor by 4.
\<close>

theorem C3_length_helper_overcounts:
  "lengthCodedNumberLength (Fin 65536) = 5
   \<and> writeLengthCodedNumber (Packet 0 (replicate 16 0) 0 16) (Num (Fin 65536))
       = Inr ((Packet 0 (replicate 16 0) 0 16)
               \<lparr>buffer := [0, 0, 0, 0, 253, 0, 0, 1, 0, 0, 0, 0, 0, 0, 0, 0], offset := 4 + 4\<rparr>)"
proof -
  have "writeLengthCodedNumber (Packet 0 (replicate 16 0) 0 16) (lcn_arg 65536)
      = Inr (put (Packet 0 (replicate 16 0) 0 16) (encodeLen 65536))"
    by (rule write_ok) (simp_all add: Packet_def)
  moreover have "encodeLen 65536 = [253, 0, 0, 1]"
    by (simp add: encodeLen_def eval_nat_numeral)
  ultimately show ?thesis
    by (simp add: lcn_arg_def put_def buf_store_def Packet_def lengthCodedNumberLength_def
        js_less_def eval_nat_numeral)
qed

subsection \<open>\<open>intAscii\<close>\<close>

text \<open>
  C4 (fails on the code): the claim says \<open>intAscii\<close> returns the 17 digits
  \<open>90071992547409921\<close> as that string and \<open>9007199254740993\<close> as that string, at any
  offset into a larger buffer.  At offset 0 it does.  At offset 1 (one byte before the
  digits) it returns the string \<open>9007199254740992\<close> for the first and the number
  \<open>900719925474099\<close> for the second: both branches call
  \<open>buffer.toString('ascii', offset, length)\<close>, whose third argument is an end position,
  with the length.
\<close>

theorem C4_intAscii_offset:
  "intAscii (bytes_of ''x90071992547409921'') (Some 1) (Some 17) = Str ''9007199254740992''
   \<and> intAscii (bytes_of ''x9007199254740993'') (Some 1) (Some 16) = Num (Fin 900719925474099)
   \<and> intAscii (bytes_of ''90071992547409921'') (Some 0) (Some 17) = Str ''90071992547409921''
   \<and> intAscii (bytes_of ''9007199254740993'') (Some 0) (Some 16) = Str ''9007199254740993''"
  by code_simp

subsection \<open>\<open>Packet.parseInt\<close>\<close>

lemma parseInt_never_big16: "fst (parseInt decode p len big) \<noteq> AtBig16"
  by (simp add: parseInt_def Let_def split: option.split prod.split)

lemma parseLengthCodedInt_never_big16:
  "parseLengthCodedInt decode p big \<noteq> Inr (AtBig16, r)"
proof
  assume a: "parseLengthCodedInt decode p big = Inr (AtBig16, r)"
  then obtain p1 len where "parseInt decode p1 len big = (AtBig16, r)"
    by (auto simp add: parseLengthCodedInt_def andThen_def
        split: sum.splits prod.splits jsval.splits jsnum.splits if_splits)
  then show False using parseInt_never_big16[of decode p1 len big] by simp
qed

lemma parseInt_big15:
  assumes "16 < int n - (if buf_index (buffer p) (offset p) = Some 45 then 1 else 0)"
  shows "fst (parseInt decode p (Some n) True) = AtBig15"
  using assms by (auto simp add: parseInt_def Let_def split: prod.split if_splits)

text \<open>
  C10: with \<open>supportBigNumbers\<close> set no execution of \<open>parseInt\<close>, and so none of
  \<open>parseLengthCodedInt\<close>, leaves by the block guarded by \<open>numDigits > 16\<close>; whenever
  more than 16 digits follow the optional minus sign the execution leaves by the
  \<open>numDigits >= 15\<close> block before it.
\<close>

theorem C10_big16_unreachable:
  "fst (parseInt decode p len big) \<noteq> AtBig16
   \<and> (\<forall>r. parseLengthCodedInt decode p big \<noteq> Inr (AtBig16, r))
   \<and> (16 < int n - (if buf_index (buffer p) (offset p) = Some 45 then 1 else 0)
        \<longrightarrow> fst (parseInt decode p (Some n) True) = AtBig15)"
  using parseInt_never_big16 parseLengthCodedInt_never_big16 parseInt_big15 by blast

theorem C10_big16_unreachable_witness:
  "fst (parseInt latin1 (Packet 0 (replicate 4 0 @ bytes_of ''-12345678901234567890'') 0 25)
          (Some 21) True) = AtBig15
   \<and> (16::int) < int 21 - 1"
  using C10_big16_unreachable[of latin1
      "Packet 0 (replicate 4 0 @ bytes_of ''-12345678901234567890'') 0 25" "Some 21" True 21]
  by (simp add: Packet_def buf_index_def bytes_of_def)

subsection \<open>Binary dates\<close>

text \<open>
  C7 (fails on the code): the claim says \<open>dateTimeString\<close> reads year, month and day
  from the offsets \<open>dateTime\<close> reads them from (+0, +2, +3).  On the seven bytes of
  2020-01-02 03:04:05 \<open>dateTime\<close> has day 2 and \<open>dateTimeString\<close> renders day 03: it
  reads the day at +4, the hour's byte.  On the four bytes of the date alone there is no
  byte +4 and \<open>dateTimeString\<close> throws a \<open>TypeError\<close> in \<open>leftPad\<close>.
\<close>

theorem C7_day_offsets_differ:
  "dateTime [0xE4, 0x07, 0x01, 0x02, 0x03, 0x04, 0x05] (Some 0) (Some 7)
     = Inr (DateV \<lparr>year = Fin 2020, monthIndex = Fin 0, day = Fin 2, hours = Fin 3,
                    minutes = Fin 4, seconds = Fin 5, micros = 0\<rparr>)
   \<and> dateTimeString [0xE4, 0x07, 0x01, 0x02, 0x03, 0x04, 0x05] (Some 0) (Some 7) None
     = Inr (Str ''2020-01-03 03:04:05'')
   \<and> dateTime [0xE4, 0x07, 0x01, 0x02] None None
     = Inr (DateV \<lparr>year = Fin 2020, monthIndex = Fin 0, day = Fin 2, hours = Fin 0,
                    minutes = Fin 0, seconds = Fin 0, micros = 0\<rparr>)
   \<and> dateTimeString [0xE4, 0x07, 0x01, 0x02] None None None = Inl TypeError"
  by code_simp

subsection \<open>The cast field over a NULL cell\<close>

lemma CastField_null:
  "call_defaultRead decode (defaultRead (CastField isBin col enc defaultCast None)) = Inr Null"
  "forceEncoding (CastField isBin col enc defaultCast None) = EncNull"
  "castField_encoding (CastField isBin col enc defaultCast None) = encoding col"
  by (simp_all add: CastField_def call_defaultRead_def castField_encoding_def truthy_encoding_def)

text \<open>
  C9 (as stated, fails): the claim says the \<open>encoding\<close> property of a cast field built
  over a \<open>null\<close> cell is \<open>null\<close>.  For a column whose encoding is \<open>utf8\<close> the
  property is \<open>utf8\<close>: the constructor sets \<open>forceEncoding\<close> to \<open>null\<close>, and the
  getter \<open>forceEncoding || column.encoding\<close> then answers with the column's encoding.
\<close>

theorem C9_encoding_counterexample:
  "castField_encoding
     (CastField True \<lparr>columnType = OtherType 253, unsignedFlag = False, decimals = 0,
                      encoding = Enc ''utf8''\<rparr> (Enc ''binary'') None None) = Enc ''utf8''
   \<and> castField_encoding
     (CastField True \<lparr>columnType = OtherType 253, unsignedFlag = False, decimals = 0,
                      encoding = Enc ''utf8''\<rparr> (Enc ''binary'') None None) \<noteq> EncNull"
  by (simp add: CastField_null)

text \<open>
  C9 (amended): for every column definition, protocol, encoding argument and default
  cast, a cast field built over a \<open>null\<close> or \<open>undefined\<close> cell has a \<open>defaultRead\<close>
  that returns \<open>null\<close> and a \<open>forceEncoding\<close> of \<open>null\<close>, and its \<open>encoding\<close>
  property is the column's own encoding.
\<close>

theorem C9_null_cell_amended:
  "call_defaultRead decode (defaultRead (CastField isBin col enc defaultCast None)) = Inr Null
   \<and> forceEncoding (CastField isBin col enc defaultCast None) = EncNull
   \<and> castField_encoding (CastField isBin col enc defaultCast None) = encoding col"
  by (simp add: CastField_null)

subsection \<open>Error frames\<close>







lemma S7_table: "[1096 \<mapsto> ''ER_NO_TABLES_USED''] (uint (0x48 :: byte) + 256 * uint (0x04 :: byte))
    = Some ''ER_NO_TABLES_USED''"
  by simp





lemma read_bitmask_eq:
  "read_bitmask m p = (map (\<lambda>i. buf_index (buffer p) (offset p + i)) [0..<m], advance p m)"
proof (induction m arbitrary: p)
  case 0
  show ?case by (simp add: advance_def)
next
  case (Suc m)
  have "read_bitmask (Suc m) p =
          (buf_index (buffer p) (offset p) #
             map (\<lambda>i. buf_index (buffer p) (offset p + Suc i)) [0..<m],
           advance p (Suc m))"
    by (simp add: readInt8_def Suc.IH advance_def del: upt_Suc)
  also have "buf_index (buffer p) (offset p) #
             map (\<lambda>i. buf_index (buffer p) (offset p + Suc i)) [0..<m] =
             map (\<lambda>i. buf_index (buffer p) (offset p + i)) [0..<Suc m]"
    by (simp add: map_upt_Suc del: upt_Suc)
  finally show ?case .
qed

lemma byte_and_exp: "(x AND of_nat (2 ^ m) \<noteq> 0) = bit (x :: byte) m"
proof -
  have "of_nat (2 ^ m) = (2 ^ m :: byte)" by simp
  then show ?thesis by (simp add: and_exp_eq_0_iff_not_bit)
qed

lemma mask_test_spec: "mask_test bm ((k + 2) div 8) (2 ^ ((k + 2) mod 8)) = spec_null_bit bm k"
  unfolding mask_test_def spec_null_bit_def
  by (simp only: byte_and_exp split: option.split)

lemma parse_columns_spec:
  "parse_columns decode ext cfg bm cols (2 ^ ((k + 2) mod 8)) ((k + 2) div 8) p =
   spec_columns decode ext cfg bm k cols p"
proof (induction cols arbitrary: k p)
  case Nil
  show ?case by simp
next
  case (Cons field rest)
  have next_state:
    "(if (2::nat) ^ ((k + 2) mod 8) * 2 = 256 then (1::nat, (k + 2) div 8 + 1)
      else (2 ^ ((k + 2) mod 8) * 2, (k + 2) div 8)) =
     (2 ^ ((Suc k + 2) mod 8), (Suc k + 2) div 8)"
  proof (cases "(k + 2) mod 8 = 7")
    case True
    then have "(Suc k + 2) mod 8 = 0" "(Suc k + 2) div 8 = (k + 2) div 8 + 1"
      by presburger+
    with True show ?thesis by simp
  next
    case False
    have lt: "(k + 2) mod 8 < 8" by simp
    with False have "(k + 2) mod 8 < 7" by linarith
    then have ne: "(2::nat) ^ ((k + 2) mod 8) * 2 \<noteq> 256"
    proof -
      assume "(k + 2) mod 8 < 7"
      then have "(2::nat) ^ Suc ((k + 2) mod 8) < 2 ^ 8"
        by (intro power_strict_increasing) simp_all
      then show ?thesis by simp
    qed
    from False have "(Suc k + 2) mod 8 = Suc ((k + 2) mod 8)" "(Suc k + 2) div 8 = (k + 2) div 8"
      by presburger+
    with ne show ?thesis by simp
  qed
  show ?case
    by (simp only: parse_columns.simps spec_columns.simps mask_test_spec Let_def next_state
          prod.case Cons.IH)
qed

lemma BinaryRow_spec:
  "BinaryRow decode ext cfg cols p =
   spec_columns decode ext cfg (null_bitmask p (length cols)) 0 cols
     (advance p (1 + (length cols + 9) div 8))"
proof -
  have "parse_columns decode ext cfg bm cols 4 0 q = spec_columns decode ext cfg bm 0 cols q"
    for bm q
    using parse_columns_spec [of decode ext cfg bm cols 0 q] by simp
  then show ?thesis
    by (simp add: BinaryRow_def nullBitmapLength_def readInt8_def read_bitmask_eq null_bitmask_def
          advance_def add.commute)
qed

lemma column_value_null:
  "cast cfg = None \<Longrightarrow> column_value decode ext cfg field True p = Inr (Null, p)"
  by (simp add: column_value_def split: prod.split)

lemma spec_columns_null:
  "spec_columns decode ext cfg bm k cols p = Inr (row, p') \<Longrightarrow> cast cfg = None \<Longrightarrow>
   length row = length cols \<and> (\<forall>i<length cols. spec_null_bit bm (k + i) \<longrightarrow> row ! i = Null)"
proof (induction cols arbitrary: k p row)
  case Nil
  then show ?case by simp
next
  case (Cons field rest)
  from Cons.prems(1) obtain v p1 vs where
    cv: "column_value decode ext cfg field (spec_null_bit bm k) p = Inr (v, p1)" and
    rest: "spec_columns decode ext cfg bm (Suc k) rest p1 = Inr (vs, p')" and
    row: "row = v # vs"
    by (auto simp: andThen_def split: sum.splits prod.splits)
  from Cons.IH [OF rest Cons.prems(2)] have
    len: "length vs = length rest" and
    nulls: "\<forall>i<length rest. spec_null_bit bm (Suc k + i) \<longrightarrow> vs ! i = Null"
    by simp_all
  have "spec_null_bit bm (k + i) \<longrightarrow> row ! i = Null" if "i < length (field # rest)" for i
  proof (cases i)
    case 0
    show ?thesis
    proof
      assume "spec_null_bit bm (k + i)"
      with 0 cv column_value_null [OF Cons.prems(2), of decode ext field p]
      show "row ! i = Null" by (simp add: row)
    qed
  next
    case (Suc j)
    with that nulls show ?thesis by (simp add: row)
  qed
  with len row show ?case by simp
qed

lemma S8_row:
  "BinaryRow latin1 no_ext plain_config S8_fields S8_packet =
     Inr ([Num (Fin 42), Null], S8_packet\<lparr>offset := 7\<rparr>)"
  by code_simp

lemma null_column_row:
  "BinaryRow latin1 no_ext plain_config [null_column] (Packet 0 [2, 0, 0, 1, 0, 0] 0 6) =
     Inr ([Null], (Packet 0 [2, 0, 0, 1, 0, 0] 0 6)\<lparr>offset := 6\<rparr>)"
  by code_simp



lemma le_uint_nonneg: "0 \<le> le_uint xs"
  by (induction xs) simp_all

lemma le_uint_append: "le_uint (xs @ ys) = le_uint xs + 256 ^ length xs * le_uint ys"
  by (induction xs) (simp_all add: algebra_simps)

lemma take_two_drop:
  assumes "i + 2 \<le> length xs"
  shows "take 2 (drop i xs) = [xs ! i, xs ! (i + 1)]"
proof -
  have a: "drop i xs = xs ! i # drop (Suc i) xs"
    using assms by (simp add: Cons_nth_drop_Suc)
  have b: "drop (Suc i) xs = xs ! Suc i # drop (Suc (Suc i)) xs"
    using assms by (simp add: Cons_nth_drop_Suc)
  show ?thesis by (simp add: a b numeral_2_eq_2)
qed

lemma take_three_drop:
  assumes "i + 3 \<le> length xs"
  shows "take 3 (drop i xs) = [xs ! i, xs ! (i + 1), xs ! (i + 2)]"
proof -
  have a: "drop i xs = xs ! i # drop (Suc i) xs"
    using assms by (simp add: Cons_nth_drop_Suc)
  have b: "drop (Suc i) xs = xs ! Suc i # drop (Suc (Suc i)) xs"
    using assms by (simp add: Cons_nth_drop_Suc)
  have c: "drop (Suc (Suc i)) xs = xs ! Suc (Suc i) # drop (Suc (Suc (Suc i))) xs"
    using assms by (simp add: Cons_nth_drop_Suc)
  show ?thesis by (simp add: a b c numeral_3_eq_3)
qed

lemma take_eight_drop:
  "take 8 (drop i xs) = take 4 (drop i xs) @ take 4 (drop (i + 4) xs)"
  using take_add [of 4 4 "drop i xs"] by (simp add: add.commute)

lemma uint_byte_less: "uint (x :: byte) < 256"
  using uint_bounded [of x] by simp

lemma readLengthCodedNumber_advance:
  assumes "readLengthCodedNumber p b s = Inr (v, p')"
  shows "p' = advance p (lcn_width (buffer p) (offset p))"
proof (cases "buf_index (buffer p) (offset p)")
  case None
  with assms show ?thesis
    by (simp add: readLengthCodedNumber_def readLengthCodedNumberExt_def readInt8_def)
next
  case (Some t)
  show ?thesis
  proof (cases "t < 251")
    case True
    with Some assms show ?thesis
      by (auto simp add: readLengthCodedNumber_def readInt8_def lcn_width_def advance_def)
  next
    case False
    have ext: "readLengthCodedNumberExt (p\<lparr>offset := offset p + 1\<rparr>) (Some t) b s = Inr (v, p')"
      using assms Some False by (simp add: readLengthCodedNumber_def readInt8_def)
    consider "t = 251" | "t = 252" | "t = 253" | "t = 254"
      | "t \<noteq> 251" "t \<noteq> 252" "t \<noteq> 253" "t \<noteq> 254" by blast
    then show ?thesis
    proof cases
      case 1
      with ext Some show ?thesis
        by (simp add: readLengthCodedNumberExt_def lcn_width_def advance_def)
    next
      case 2
      with ext Some show ?thesis
        by (auto simp add: readLengthCodedNumberExt_def readInt8_def lcn_width_def advance_def)
    next
      case 3
      with ext Some show ?thesis
        by (auto simp add: readLengthCodedNumberExt_def readInt8_def lcn_width_def advance_def)
    next
      case 4
      with ext obtain w0 w1 p1 where
        "readInt32 (p\<lparr>offset := offset p + 1\<rparr>) = Inr (w0, p1)" "readInt32 p1 = Inr (w1, p')"
        by (auto simp add: readLengthCodedNumberExt_def andThen_def Let_def
            split: sum.splits prod.splits if_splits)
      then have "p' = p\<lparr>offset := offset p + 9\<rparr>"
        by (auto simp add: readInt32_def andThen_def split: sum.splits)
      with 4 Some show ?thesis by (simp add: lcn_width_def advance_def)
    next
      case 5
      with ext show ?thesis by (simp add: readLengthCodedNumberExt_def)
    qed
  qed
qed

lemma readLengthCodedNumber_in_window:
  assumes w: "offset p + lcn_width (buffer p) (offset p) \<le> length (buffer p)"
    and m: "lcn_payload (buffer p) (offset p) < 9007199254740992"
  shows "readLengthCodedNumber p False False =
           Inr (if buf_index (buffer p) (offset p) = Some 251 then Null
                else Num (Fin (lcn_payload (buffer p) (offset p))),
                advance p (lcn_width (buffer p) (offset p)))
         \<or> readLengthCodedNumber p False False = Inl (Error ''Should not reach here'')"
proof (cases "buf_index (buffer p) (offset p)")
  case None
  then show ?thesis
    by (simp add: readLengthCodedNumber_def readLengthCodedNumberExt_def readInt8_def)
next
  case (Some t)
  let ?buf = "buffer p"
  let ?o = "offset p"
  let ?p1 = "p\<lparr>offset := offset p + 1\<rparr>"
  show ?thesis
  proof (cases "t < 251")
    case True
    with Some show ?thesis
      by (auto simp add: readLengthCodedNumber_def readInt8_def lcn_payload_def lcn_width_def
          advance_def)
  next
    case False
    have ext: "readLengthCodedNumber p False False =
               readLengthCodedNumberExt ?p1 (Some t) False False"
      using Some False by (simp add: readLengthCodedNumber_def readInt8_def)
    consider "t = 251" | "t = 252" | "t = 253" | "t = 254"
      | "t \<noteq> 251" "t \<noteq> 252" "t \<noteq> 253" "t \<noteq> 254" by blast
    then show ?thesis
    proof cases
      case 1
      with Some show ?thesis
        unfolding ext by (simp add: readLengthCodedNumberExt_def lcn_width_def advance_def)
    next
      case 2
      have len: "?o + 1 + 2 \<le> length ?buf" using w Some 2 by (simp add: lcn_width_def)
      have i0: "buf_index ?buf (?o + 1) = Some (?buf ! (?o + 1))"
        and i1: "buf_index ?buf (?o + 1 + 1) = Some (?buf ! (?o + 1 + 1))"
        using len by (simp_all add: buf_index_def)
      have small: "\<bar>uint (?buf ! (?o + 1)) + 256 * uint (?buf ! (?o + 1 + 1))\<bar> < 9007199254740992"
        using uint_byte_less [of "?buf ! (?o + 1)"] uint_byte_less [of "?buf ! (?o + 1 + 1)"]
        by simp
      have res: "readLengthCodedNumberExt ?p1 (Some t) False False =
              Inr (Num (Fin (uint (?buf ! (?o + 1)) + 256 * uint (?buf ! (?o + 1 + 1)))),
                   p\<lparr>offset := ?o + 1 + 1 + 1\<rparr>)"
        using 2 i0 i1 to_double_exact [OF small]
        by (simp add: readLengthCodedNumberExt_def readInt8_def byte_num_def byte_shl_def
            push_bit_eq_mult mult.commute)
      have "lcn_payload ?buf ?o = le_uint [?buf ! (?o + 1), ?buf ! (?o + 1 + 1)]"
        using Some 2 take_two_drop [OF len] by (simp add: lcn_payload_def)
      with res Some 2 show ?thesis
        unfolding ext by (simp add: lcn_width_def advance_def)
    next
      case 3
      have len: "?o + 1 + 3 \<le> length ?buf" using w Some 3 by (simp add: lcn_width_def)
      have i0: "buf_index ?buf (?o + 1) = Some (?buf ! (?o + 1))"
        and i1: "buf_index ?buf (?o + 1 + 1) = Some (?buf ! (?o + 1 + 1))"
        and i2: "buf_index ?buf (?o + 1 + 1 + 1) = Some (?buf ! (?o + 1 + 2))"
        using len by (simp_all add: buf_index_def numeral_2_eq_2)
      have small1: "\<bar>uint (?buf ! (?o + 1)) + 256 * uint (?buf ! (?o + 1 + 1))\<bar> < 9007199254740992"
        using uint_byte_less [of "?buf ! (?o + 1)"] uint_byte_less [of "?buf ! (?o + 1 + 1)"]
        by simp
      have small2: "\<bar>uint (?buf ! (?o + 1)) + 256 * uint (?buf ! (?o + 1 + 1))
                      + 65536 * uint (?buf ! (?o + 1 + 2))\<bar> < 9007199254740992"
        using uint_byte_less [of "?buf ! (?o + 1)"] uint_byte_less [of "?buf ! (?o + 1 + 1)"]
          uint_byte_less [of "?buf ! (?o + 1 + 2)"]
        by simp
      have res: "readLengthCodedNumberExt ?p1 (Some t) False False =
              Inr (Num (Fin (uint (?buf ! (?o + 1)) + 256 * uint (?buf ! (?o + 1 + 1))
                             + 65536 * uint (?buf ! (?o + 1 + 2)))),
                   p\<lparr>offset := ?o + 1 + 1 + 1 + 1\<rparr>)"
        using 3 i0 i1 i2 to_double_exact [OF small1] to_double_exact [OF small2]
        by (simp add: readLengthCodedNumberExt_def readInt8_def byte_num_def byte_shl_def
            push_bit_eq_mult mult.commute)
      have "lcn_payload ?buf ?o = le_uint [?buf ! (?o + 1), ?buf ! (?o + 1 + 1), ?buf ! (?o + 1 + 2)]"
        using Some 3 take_three_drop [OF len] by (simp add: lcn_payload_def)
      with res Some 3 show ?thesis
        unfolding ext by (simp add: lcn_width_def advance_def)
    next
      case 4
      let ?w0 = "le_uint (take 4 (drop (?o + 1) ?buf))"
      let ?w1 = "le_uint (take 4 (drop (?o + 1 + 4) ?buf))"
      have len: "?o + 1 + 8 \<le> length ?buf" using w Some 4 by (simp add: lcn_width_def)
      have r0: "readInt32 ?p1 = Inr (?w0, p\<lparr>offset := ?o + 1 + 4\<rparr>)"
        using len by (simp add: readInt32_def readUIntLE_def)
      have r1: "readInt32 (p\<lparr>offset := ?o + 1 + 4\<rparr>) = Inr (?w1, p\<lparr>offset := ?o + 1 + 4 + 4\<rparr>)"
        using len by (simp add: readInt32_def readUIntLE_def)
      have l4: "length (take 4 (drop (?o + 1) ?buf)) = 4" using len by simp
      have pay: "lcn_payload ?buf ?o = ?w0 + 4294967296 * ?w1"
        using Some 4 take_eight_drop [of "?o + 1" ?buf] le_uint_append
          [of "take 4 (drop (?o + 1) ?buf)" "take 4 (drop (?o + 1 + 4) ?buf)"] l4
        by (simp add: lcn_payload_def)
      have n0: "0 \<le> ?w0" and n1: "0 \<le> ?w1" by (rule le_uint_nonneg)+
      have w1_small: "?w1 < 2097152"
      proof (rule ccontr)
        assume "\<not> ?w1 < 2097152"
        then have "9007199254740992 \<le> 4294967296 * ?w1" by simp
        with n0 pay m show False by linarith
      qed
      have res: "readLengthCodedNumberExt ?p1 (Some t) False False =
                   Inr (Num (Fin (?w0 + 4294967296 * ?w1)), p\<lparr>offset := ?o + 1 + 4 + 4\<rparr>)"
      proof (cases "?w1 = 0")
        case True
        with 4 r0 r1 show ?thesis
          by (simp add: readLengthCodedNumberExt_def)
      next
        case nz: False
        have a: "\<bar>?w1 * 4294967296\<bar> < 9007199254740992" using n1 w1_small by simp
        have b: "\<bar>?w1 * 4294967296 + ?w0\<bar> < 9007199254740992"
          using n0 n1 pay m by simp
        have "js_add (js_mul (Fin ?w1) (Fin 4294967296)) (Fin ?w0) = Fin (?w0 + 4294967296 * ?w1)"
          using to_double_exact [OF a] to_double_exact [OF b] by (simp add: add.commute mult.commute)
        with 4 r0 r1 nz w1_small show ?thesis
          by (simp add: readLengthCodedNumberExt_def)
      qed
      with pay Some 4 show ?thesis
        unfolding ext by (simp add: lcn_width_def advance_def)
    next
      case 5
      then show ?thesis unfolding ext by (simp add: readLengthCodedNumberExt_def)
    qed
  qed
qed

lemma readLengthCodedNumber_payload:
  assumes r: "readLengthCodedNumber p False False = Inr (Num (Fin k), p')"
    and w: "offset p + lcn_width (buffer p) (offset p) \<le> length (buffer p)"
    and m: "lcn_payload (buffer p) (offset p) < 9007199254740992"
  shows "k = lcn_payload (buffer p) (offset p)"
  using readLengthCodedNumber_in_window [OF w m] r by (auto split: if_splits)

lemma lcn_payload_nonneg: "0 \<le> lcn_payload buf off"
  by (simp add: lcn_payload_def le_uint_nonneg split: option.split)

lemma lcn_value_advance:
  assumes r: "readLengthCodedNumber p False False = Inr (len, p1)"
    and w: "offset p + (lcn_width (buffer p) (offset p) + nat (lcn_payload (buffer p) (offset p)))
              \<le> length (buffer p)"
    and m: "length (buffer p) \<le> max_length"
  shows "p1 = advance p (lcn_width (buffer p) (offset p))"
    and "len = Null \<Longrightarrow> lcn_payload (buffer p) (offset p) = 0"
    and "len = Num (Fin k) \<Longrightarrow> k = lcn_payload (buffer p) (offset p)"
proof -
  show "p1 = advance p (lcn_width (buffer p) (offset p))"
    using readLengthCodedNumber_advance [OF r] .
  show "lcn_payload (buffer p) (offset p) = 0" if "len = Null"
  proof (cases "buf_index (buffer p) (offset p)")
    case None
    then show ?thesis by (simp add: lcn_payload_def)
  next
    case (Some t)
    have "t = 251"
    proof (rule ccontr)
      assume "t \<noteq> 251"
      with r Some that show False
        by (auto simp add: readLengthCodedNumber_def readLengthCodedNumberExt_def readInt8_def
            andThen_def Let_def split: if_splits sum.splits prod.splits)
    qed
    with Some show ?thesis by (simp add: lcn_payload_def)
  qed
  show "k = lcn_payload (buffer p) (offset p)" if "len = Num (Fin k)"
  proof -
    have "nat (lcn_payload (buffer p) (offset p)) \<le> 9007199254740991"
      using w m by (simp add: max_length_def)
    then have "lcn_payload (buffer p) (offset p) < 9007199254740992" by linarith
    moreover have "offset p + lcn_width (buffer p) (offset p) \<le> length (buffer p)"
      using w by linarith
    ultimately show ?thesis
      using readLengthCodedNumber_payload [of p k p1] r that by simp
  qed
qed

lemma run_read_fixed:
  assumes "run_read decode ext op p = Inr (v, p')"
    and "op \<in> {ReadInt8, ReadInt16, ReadInt24, ReadInt32, ReadSInt8, ReadSInt16, ReadSInt32,
               ReadInt64JSNumber, ReadSInt64JSNumber, ReadInt64String, ReadSInt64String,
               ReadInt64, ReadSInt64, ReadFloat, ReadDouble}"
  shows "p' = advance p (consumed op p)"
  using assms
  by (auto simp add: run_read_def consumed_def advance_def int_result_def andThen_def
      readInt8_def readInt16_def readInt24_def readInt32_def readSInt8_def readSInt16_def
      readSInt32_def readInt64JSNumber_def readSInt64JSNumber_def readInt64String_def
      readSInt64String_def readInt64_def readSInt64_def readFloat_def readDouble_def
      split: sum.splits prod.splits)

lemma run_read_rest:
  assumes "offset p + consumed op p \<le> endOff p"
    and "op = ReadBuffer len \<or> op = ReadString len enc"
  shows "run_read decode ext op p = Inr (v, p') \<Longrightarrow> p' = advance p (consumed op p)"
  using assms
  by (auto simp add: run_read_def consumed_def advance_def readBuffer_def readString_def Let_def
      split: option.splits)

lemma run_read_dates:
  assumes "run_read decode ext op p = Inr (v, p')"
    and "op = ReadDateTime \<or> op = ReadDateTimeString d \<or> op = ReadTimeString c"
  shows "p' = advance p (consumed op p)"
  using assms
  by (auto simp add: run_read_def consumed_def advance_def readDateTime_def
      readDateTimeString_def readTimeString_def readInt8_def length_byte_def andThen_def
      split: option.splits sum.splits if_splits)

lemma run_read_number:
  assumes "run_read decode ext op p = Inr (v, p')"
    and "op = ReadLengthCodedNumber b s \<or> op = ReadLengthCodedNumberSigned b"
  shows "p' = advance p (consumed op p)"
  using assms readLengthCodedNumber_advance [of p b s v p']
    readLengthCodedNumber_advance [of p b True v p']
  by (auto simp add: run_read_def consumed_def readLengthCodedNumberSigned_def)

lemma run_read_terminated:
  assumes "run_read decode ext (ReadNullTerminatedString enc) p = Inr (v, p')"
  shows "p' = advance p (consumed (ReadNullTerminatedString enc) p)"
  using assms
  by (auto simp add: run_read_def consumed_def advance_def readNullTerminatedString_def Let_def)

lemma run_read_coded:
  assumes r: "run_read decode ext op p = Inr (v, p')"
    and op: "op = ReadLengthCodedString enc \<or> op = ReadLengthCodedBuffer"
    and w: "offset p + consumed op p \<le> endOff p"
    and e: "endOff p \<le> length (buffer p)"
    and m: "length (buffer p) \<le> max_length"
  shows "p' = advance p (consumed op p)"
proof -
  let ?w = "lcn_width (buffer p) (offset p)"
  let ?n = "lcn_payload (buffer p) (offset p)"
  have c: "consumed op p = ?w + nat ?n" using op by (auto simp add: consumed_def)
  have w': "offset p + (?w + nat ?n) \<le> length (buffer p)" using w e c by linarith
  from r op obtain len p1 where
    n: "readLengthCodedNumber p False False = Inr (len, p1)"
    by (auto simp add: run_read_def readLengthCodedString_def readLengthCodedBuffer_def
        andThen_def split: sum.splits)
  note facts = lcn_value_advance [OF n w' m]
  have p1: "p1 = advance p ?w" by (rule facts(1))
  consider "len = Null" | k where "len = Num (Fin k)" "0 \<le> k"
    | "len \<noteq> Null" "\<forall>k. 0 \<le> k \<longrightarrow> len \<noteq> Num (Fin k)" by blast
  then show ?thesis
  proof cases
    case 1
    then have "?n = 0" by (rule facts(2))
    moreover have "p' = p1"
      using r op n 1
      by (auto simp add: run_read_def readLengthCodedString_def readLengthCodedBuffer_def)
    ultimately show ?thesis using p1 c by simp
  next
    case 2
    then have k: "k = ?n" using facts(3) by simp
    have "p' = p1\<lparr>offset := offset p1 + nat k\<rparr>"
      using r op n 2
      by (auto simp add: run_read_def readLengthCodedString_def readLengthCodedBuffer_def
          readBuffer_def Let_def)
    then show ?thesis using p1 k c by (simp add: advance_def)
  next
    case 3
    then have "run_read decode ext op p = Inl (Unmodelled ''a negative length'') \<or>
               run_read decode ext op p = Inl (Unmodelled ''an offset that is no longer an integer'')"
      using op n
      by (auto simp add: run_read_def readLengthCodedString_def readLengthCodedBuffer_def
          split: jsval.splits jsnum.splits)
    with r show ?thesis by auto
  qed
qed

lemma run_read_advance:
  assumes r: "run_read decode ext op p = Inr (v, p')"
    and w: "offset p + consumed op p \<le> endOff p"
    and e: "endOff p \<le> length (buffer p)"
    and m: "length (buffer p) \<le> max_length"
  shows "p' = advance p (consumed op p)"
proof (cases op)
  case (ReadLengthCodedNumber b s)
  then show ?thesis using run_read_number [OF r] by blast
next
  case (ReadLengthCodedNumberSigned b)
  then show ?thesis using run_read_number [OF r] by blast
next
  case (ReadBuffer len)
  then show ?thesis using run_read_rest [OF w _ r] by blast
next
  case (ReadString len enc)
  then show ?thesis using run_read_rest [OF w _ r] by blast
next
  case ReadDateTime
  then show ?thesis using run_read_dates [OF r] by blast
next
  case (ReadDateTimeString d)
  then show ?thesis using run_read_dates [OF r] by blast
next
  case (ReadTimeString c)
  then show ?thesis using run_read_dates [OF r] by blast
next
  case (ReadLengthCodedString enc)
  then show ?thesis using run_read_coded [OF r _ w e m] by blast
next
  case ReadLengthCodedBuffer
  then show ?thesis using run_read_coded [OF r _ w e m] by blast
next
  case (ReadNullTerminatedString enc)
  then show ?thesis using run_read_terminated r by blast
qed (use run_read_fixed [OF r] in simp_all)

lemma run_reads_advance:
  assumes "run_reads decode ext ops p = Inr (vs, p')"
    and "in_window ops p"
    and "endOff p \<le> length (buffer p)"
    and "length (buffer p) \<le> max_length"
  shows "p' = advance p (total_consumed ops p) \<and> length vs = length ops
         \<and> offset p + total_consumed ops p \<le> max (offset p) (endOff p)"
  using assms
proof (induction ops arbitrary: p vs)
  case Nil
  then show ?case by (simp add: advance_def)
next
  case (Cons op ops)
  from Cons.prems(1) obtain v p1 ws where
    one: "run_read decode ext op p = Inr (v, p1)" and
    rest: "run_reads decode ext ops p1 = Inr (ws, p')" and
    vs: "vs = v # ws"
    by (auto simp add: andThen_def split: sum.splits prod.splits)
  have w: "offset p + consumed op p \<le> endOff p" using Cons.prems(2) by simp
  have p1: "p1 = advance p (consumed op p)"
    using run_read_advance [OF one w Cons.prems(3) Cons.prems(4)] .
  have win: "in_window ops p1" using Cons.prems(2) p1 by simp
  have e1: "endOff p1 \<le> length (buffer p1)" using Cons.prems(3) p1 by (simp add: advance_def)
  have m1: "length (buffer p1) \<le> max_length" using Cons.prems(4) p1 by (simp add: advance_def)
  from Cons.IH [OF rest win e1 m1] have
    a: "p' = advance p1 (total_consumed ops p1)" and
    l: "length ws = length ops" and
    b: "offset p1 + total_consumed ops p1 \<le> max (offset p1) (endOff p1)"
    by simp_all
  have "offset p1 \<le> endOff p1" using w p1 by (simp add: advance_def)
  with b have "offset p1 + total_consumed ops p1 \<le> endOff p1" by simp
  then have "offset p + total_consumed (op # ops) p \<le> max (offset p) (endOff p)"
    using p1 by (simp add: advance_def)
  moreover have "p' = advance p (total_consumed (op # ops) p)" using a p1 by simp
  ultimately show ?case using l vs by simp
qed

lemma modelled_simps [simp]:
  "modelled (Inr x)" "modelled (Inl TypeError)" "modelled (Inl RangeError)"
  "modelled (Inl (Error e))" "\<not> modelled (Inl (Unmodelled u))"
  by (simp_all add: modelled_def)

lemma modelled_andThen:
  "modelled r \<Longrightarrow> (\<And>x. r = Inr x \<Longrightarrow> modelled (f x)) \<Longrightarrow> modelled (andThen r f)"
  by (cases r) (simp_all add: andThen_def modelled_def)

lemma modelled_readUIntLE [simp]: "modelled (readUIntLE n buf off)"
  by (simp add: readUIntLE_def)

lemma modelled_readIntLE [simp]: "modelled (readIntLE n buf off)"
  by (simp add: readIntLE_def modelled_andThen)

lemma modelled_uint16 [simp]: "modelled (uint16 buf off)"
  by (simp add: uint16_def modelled_andThen)

lemma modelled_uint32 [simp]: "modelled (uint32 buf off)"
  by (simp add: uint32_def)

lemma modelled_leftPad_Num [simp]: "modelled (leftPad n (Num x))"
  by (simp add: leftPad_def)

lemma modelled_leftPad_uint8 [simp]: "modelled (leftPad n (uint8 buf off))"
  by (simp add: leftPad_def uint8_def split: option.split)

lemma uint16_Num: "uint16 buf off = Inr y \<Longrightarrow> \<exists>k. y = Num (Fin k)"
  by (auto simp add: uint16_def andThen_def split: sum.splits)

lemma modelled_dateTime [simp]: "modelled (dateTime buf offs len)"
  by (auto simp add: dateTime_def Let_def split: prod.split intro!: modelled_andThen)

lemma modelled_dateTimeString [simp]: "modelled (dateTimeString buf offs len d)"
  by (auto simp add: dateTimeString_def Let_def split: prod.split option.split
      intro!: modelled_andThen dest!: uint16_Num)

lemma modelled_join_Num [simp]: "modelled (join_element (Num x))"
  by (simp add: join_element_def)

lemma modelled_join_uint8 [simp]: "modelled (join_element (uint8 buf off))"
  by (simp add: join_element_def uint8_def split: option.split)

lemma modelled_time [simp]: "modelled (time' c buf offs len)"
  by (auto simp add: time'_def Let_def split: prod.split intro!: modelled_andThen)

lemma modelled_uint64Long [simp]: "modelled (uint64Long buf offs)"
  by (auto simp add: uint64Long_def Let_def intro!: modelled_andThen)

lemma modelled_int64Long [simp]: "modelled (int64Long buf offs)"
  by (auto simp add: int64Long_def Let_def intro!: modelled_andThen)

lemma modelled_64 [simp]:
  "modelled (uint64Number buf offs)" "modelled (int64Number buf offs)"
  "modelled (uint64String buf offs)" "modelled (int64String buf offs)"
  "modelled (uint64NumberIfPossible buf offs)" "modelled (int64NumberIfPossible buf offs)"
  by (auto simp add: uint64Number_def int64Number_def uint64String_def int64String_def
      uint64NumberIfPossible_def int64NumberIfPossible_def Let_def intro!: modelled_andThen)

text \<open>
  A read that lies in the window of a packet whose window lies in its buffer is never
  given up by the model: it returns a value or throws, as the program does.
\<close>

lemma run_read_modelled:
  assumes w: "offset p + consumed op p \<le> endOff p"
    and e: "endOff p \<le> length (buffer p)"
    and m: "length (buffer p) \<le> max_length"
    and x: "\<And>name b. modelled (ext name b)"
  shows "modelled (run_read decode ext op p)"
proof -
  have byte: "buf_index (buffer p) (offset p) = Some (buffer p ! offset p)"
    if "offset p + 1 \<le> length (buffer p)"
    using that by (simp add: buf_index_def)
  have coded: "modelled (run_read decode ext op p)"
    if op: "op = ReadLengthCodedString enc \<or> op = ReadLengthCodedBuffer" for enc
  proof -
    let ?w = "lcn_width (buffer p) (offset p)"
    let ?n = "lcn_payload (buffer p) (offset p)"
    have c: "consumed op p = ?w + nat ?n" using op by (auto simp add: consumed_def)
    have "nat ?n \<le> 9007199254740991" using w e m c by (simp add: max_length_def)
    then have small: "?n < 9007199254740992" by linarith
    have win: "offset p + ?w \<le> length (buffer p)" using w e c by linarith
    from readLengthCodedNumber_in_window [OF win small] lcn_payload_nonneg [of "buffer p" "offset p"]
    show ?thesis using op
      by (auto simp add: run_read_def readLengthCodedString_def readLengthCodedBuffer_def
          readBuffer_def Let_def split: if_splits)
  qed
  show ?thesis
  proof (cases op)
    case (ReadLengthCodedString enc)
    then show ?thesis using coded by blast
  next
    case ReadLengthCodedBuffer
    then show ?thesis using coded by blast
  next
    case ReadDateTime
    then have "offset p + 1 \<le> length (buffer p)" using w e by (simp add: consumed_def)
    from byte [OF this] ReadDateTime show ?thesis
      by (auto simp add: run_read_def readDateTime_def readInt8_def intro!: modelled_andThen)
  next
    case (ReadDateTimeString d)
    then have "offset p + 1 \<le> length (buffer p)" using w e by (simp add: consumed_def)
    from byte [OF this] ReadDateTimeString show ?thesis
      by (auto simp add: run_read_def readDateTimeString_def readInt8_def intro!: modelled_andThen)
  next
    case (ReadTimeString c)
    then have "offset p + 1 \<le> length (buffer p)" using w e by (simp add: consumed_def)
    from byte [OF this] ReadTimeString show ?thesis
      by (auto simp add: run_read_def readTimeString_def readInt8_def intro!: modelled_andThen)
  next
    case (ReadLengthCodedNumber b s)
    then show ?thesis
      by (auto simp add: run_read_def readLengthCodedNumber_def readLengthCodedNumberExt_def
          readInt8_def readInt32_def Let_def split: option.split intro!: modelled_andThen)
  next
    case (ReadLengthCodedNumberSigned b)
    then show ?thesis
      by (auto simp add: run_read_def readLengthCodedNumberSigned_def readLengthCodedNumber_def
          readLengthCodedNumberExt_def readInt8_def readInt32_def Let_def
          split: option.split intro!: modelled_andThen)
  qed (auto simp add: run_read_def int_result_def readInt8_def readInt16_def readInt24_def
      readInt32_def readSInt8_def readSInt16_def readSInt32_def readInt64JSNumber_def
      readSInt64JSNumber_def readInt64String_def readSInt64String_def readInt64_def
      readSInt64_def readFloat_def readDouble_def float32_def float64_def readBuffer_def
      readString_def readNullTerminatedString_def Let_def x
      split: prod.split intro!: modelled_andThen)
qed

lemma run_reads_modelled:
  assumes "in_window ops p"
    and "endOff p \<le> length (buffer p)"
    and "length (buffer p) \<le> max_length"
    and x: "\<And>name b. modelled (ext name b)"
  shows "modelled (run_reads decode ext ops p)"
  using assms(1-3)
proof (induction ops arbitrary: p)
  case Nil
  show ?case by simp
next
  case (Cons op ops)
  have w: "offset p + consumed op p \<le> endOff p" using Cons.prems(1) by simp
  have step: "modelled (andThen (run_reads decode ext ops p1) (\<lambda>(vs, p2). Inr (v # vs, p2)))"
    if one: "run_read decode ext op p = Inr (v, p1)" for v p1
  proof -
    have p1: "p1 = advance p (consumed op p)"
      using run_read_advance [OF one w Cons.prems(2) Cons.prems(3)] .
    have "modelled (run_reads decode ext ops p1)"
      using Cons.IH [of p1] Cons.prems p1 by (simp add: advance_def)
    then show ?thesis by (rule modelled_andThen) (simp split: prod.split)
  qed
  have first: "modelled (run_read decode ext op p)"
    by (rule run_read_modelled [OF w Cons.prems(2) Cons.prems(3)]) (rule x)
  show ?case
    unfolding run_reads.simps
  proof (rule modelled_andThen [OF first])
    fix y assume "run_read decode ext op p = Inr y"
    then show "modelled (case y of (v, p1) \<Rightarrow>
                 andThen (run_reads decode ext ops p1) (\<lambda>(vs, p2). Inr (v # vs, p2)))"
      using step [of "fst y" "snd y"] by (simp add: case_prod_beta)
  qed
qed

lemma handshake_run:
  "run_reads latin1 no_ext handshake_ops (Packet 0 handshake_bytes 0 19) =
     Inr ([Num (Fin 10), Str ''8.0'', Num (Fin 263), Num (Fin 300), Str ''hi'', Buf []],
          (Packet 0 handshake_bytes 0 19)\<lparr>offset := 19\<rparr>)"
  by code_simp

lemma handshake_window: "in_window handshake_ops (Packet 0 handshake_bytes 0 19)"
  by code_simp

lemma handshake_length: "length handshake_bytes = 19"
  by (simp add: handshake_bytes_def)

lemma handshake_string:
  "run_read latin1 no_ext (ReadLengthCodedString (Enc ''utf8'')) (handshake_like\<lparr>offset := 16\<rparr>) =
     Inr (Str ''hi'', handshake_like\<lparr>offset := 19\<rparr>)"
  "consumed (ReadLengthCodedString (Enc ''utf8'')) (handshake_like\<lparr>offset := 16\<rparr>) = 3"
  by code_simp+

text \<open>
  C8: a packet built over a window with \<open>start + 4 \<le> end \<le> length buffer\<close> (the
  buffer, as every buffer of the runtime, of fewer than \<open>2^53\<close> bytes) keeps
  \<open>start \<le> offset \<le> end\<close> through every sequence of successful reads each of which
  reads only data that lies before \<open>end\<close>, and its cursor has then moved by the bytes
  those reads occupy; and one successful read moves the cursor by exactly the bytes of
  the value it read, leaving buffer and window as they were.
\<close>

theorem C8_cursor_invariant:
  "(st + 4 \<le> en \<and> en \<le> length buf \<and> length buf \<le> max_length \<and>
    in_window ops (Packet i buf st en) \<and>
    run_reads decode ext ops (Packet i buf st en) = Inr (vs, p')
    \<longrightarrow> start p' \<le> offset p' \<and> offset p' \<le> endOff p' \<and>
        p' = advance (Packet i buf st en) (total_consumed ops (Packet i buf st en))) \<and>
   (run_read decode ext op q = Inr (v, q') \<and> offset q + consumed op q \<le> endOff q \<and>
    endOff q \<le> length (buffer q) \<and> length (buffer q) \<le> max_length
    \<longrightarrow> q' = advance q (consumed op q))"
proof -
  let ?p = "Packet i buf st en"
  have "start p' \<le> offset p' \<and> offset p' \<le> endOff p' \<and> p' = advance ?p (total_consumed ops ?p)"
    if h: "st + 4 \<le> en" "en \<le> length buf" "length buf \<le> max_length"
      "in_window ops ?p" "run_reads decode ext ops ?p = Inr (vs, p')"
  proof -
    have e: "endOff ?p \<le> length (buffer ?p)" using h(2) by (simp add: Packet_def)
    have m: "length (buffer ?p) \<le> max_length" using h(3) by (simp add: Packet_def)
    from run_reads_advance [OF h(5) h(4) e m] have
      a: "p' = advance ?p (total_consumed ops ?p)" and
      b: "offset ?p + total_consumed ops ?p \<le> max (offset ?p) (endOff ?p)"
      by simp_all
    have "offset ?p \<le> endOff ?p" using h(1) by (simp add: Packet_def)
    with b have "offset ?p + total_consumed ops ?p \<le> endOff ?p" by simp
    with a show ?thesis by (simp add: advance_def Packet_def)
  qed
  moreover have "q' = advance q (consumed op q)"
    if "run_read decode ext op q = Inr (v, q')" "offset q + consumed op q \<le> endOff q"
      "endOff q \<le> length (buffer q)" "length (buffer q) \<le> max_length"
    using run_read_advance [OF that] .
  ultimately show ?thesis by blast
qed

theorem C8_cursor_invariant_witness:
  "(0::nat) + 4 \<le> 19 \<and> 19 \<le> length handshake_bytes \<and> length handshake_bytes \<le> max_length \<and>
   in_window handshake_ops (Packet 0 handshake_bytes 0 19) \<and>
   run_reads latin1 no_ext handshake_ops (Packet 0 handshake_bytes 0 19) =
     Inr ([Num (Fin 10), Str ''8.0'', Num (Fin 263), Num (Fin 300), Str ''hi'', Buf []],
          (Packet 0 handshake_bytes 0 19)\<lparr>offset := 19\<rparr>) \<and>
   (Packet 0 handshake_bytes 0 19)\<lparr>offset := 19\<rparr> =
     advance (Packet 0 handshake_bytes 0 19)
       (total_consumed handshake_ops (Packet 0 handshake_bytes 0 19)) \<and>
   run_read latin1 no_ext (ReadLengthCodedString (Enc ''utf8'')) (handshake_like\<lparr>offset := 16\<rparr>) =
     Inr (Str ''hi'', handshake_like\<lparr>offset := 19\<rparr>) \<and>
   handshake_like\<lparr>offset := 19\<rparr> =
     advance (handshake_like\<lparr>offset := 16\<rparr>)
       (consumed (ReadLengthCodedString (Enc ''utf8'')) (handshake_like\<lparr>offset := 16\<rparr>))"
proof -
  have l: "(0::nat) + 4 \<le> 19" "19 \<le> length handshake_bytes" "length handshake_bytes \<le> max_length"
    by (simp_all add: handshake_length max_length_def)
  have q0: "offset (handshake_like\<lparr>offset := 16\<rparr>)
             + consumed (ReadLengthCodedString (Enc ''utf8'')) (handshake_like\<lparr>offset := 16\<rparr>)
             \<le> endOff (handshake_like\<lparr>offset := 16\<rparr>)"
    unfolding handshake_string(2) by (simp add: handshake_like_def Packet_def)
  have q: "endOff (handshake_like\<lparr>offset := 16\<rparr>) \<le> length (buffer (handshake_like\<lparr>offset := 16\<rparr>))"
    "length (buffer (handshake_like\<lparr>offset := 16\<rparr>)) \<le> max_length"
    by (simp_all add: handshake_like_def Packet_def handshake_length max_length_def)
  from C8_cursor_invariant [of 0 19 handshake_bytes handshake_ops 0 latin1 no_ext
      "[Num (Fin 10), Str ''8.0'', Num (Fin 263), Num (Fin 300), Str ''hi'', Buf []]"
      "(Packet 0 handshake_bytes 0 19)\<lparr>offset := 19\<rparr>"
      "ReadLengthCodedString (Enc ''utf8'')" "handshake_like\<lparr>offset := 16\<rparr>"
      "Str ''hi''" "handshake_like\<lparr>offset := 19\<rparr>"]
    l handshake_window handshake_run handshake_string(1) q0 q
  show ?thesis by blast
qed

lemma call_defaultCast_bytes:
  "call_defaultCast ext PP_uint8 fb = with_bytes fb (\<lambda>b. Inr (uint8 b 0))"
  "call_defaultCast ext PP_int8 fb = with_bytes fb (\<lambda>b. as_number (readIntLE 1 b 0))"
  "call_defaultCast ext PP_uint16 fb = with_bytes fb (\<lambda>b. uint16 b 0)"
  "call_defaultCast ext PP_int16 fb = with_bytes fb (\<lambda>b. as_number (readIntLE 2 b 0))"
  "call_defaultCast ext PP_uint32 fb = with_bytes fb (\<lambda>b. as_number (readUIntLE 4 b 0))"
  "call_defaultCast ext PP_int32 fb = with_bytes fb (\<lambda>b. as_number (readIntLE 4 b 0))"
  "call_defaultCast ext PP_float32 fb = with_bytes fb (\<lambda>b. float32 ext b 0)"
  "call_defaultCast ext PP_float64 fb = with_bytes fb (\<lambda>b. float64 ext b 0)"
  "call_defaultCast ext PP_alwaysNull fb = Inr Null"
  "call_defaultCast ext PP_dateTimeString fb = with_bytes fb (\<lambda>b. dateTimeString b None None None)"
  "call_defaultCast ext (PP_dateTimeString_decimals k) fb =
     with_bytes fb (\<lambda>b. dateTimeString b (Some 0) (Some (int k)) None)"
  "call_defaultCast ext PP_dateTime fb = with_bytes fb (\<lambda>b. dateTime b None None)"
  "call_defaultCast ext PP_timeString fb = with_bytes fb (\<lambda>b. timeString b None None)"
  "call_defaultCast ext PP_floatAscii fb = with_bytes fb (ext ''floatAscii'')"
  "call_defaultCast ext PP_geometry fb = with_bytes fb (geometry ext)"
  "call_defaultCast ext JSON_parse fb =
     (case fb of Some b \<Rightarrow> ext ''JSON.parse'' b | None \<Rightarrow> Inr Null)"
  "call_defaultCast ext PP_uint64Number fb = with_bytes fb (\<lambda>b. uint64Number b None)"
  "call_defaultCast ext PP_int64Number fb = with_bytes fb (\<lambda>b. int64Number b None)"
  "call_defaultCast ext PP_uint64String fb = with_bytes fb (\<lambda>b. uint64String b None)"
  "call_defaultCast ext PP_int64String fb = with_bytes fb (\<lambda>b. int64String b None)"
  "call_defaultCast ext PP_uint64NumberIfPossible fb =
     with_bytes fb (\<lambda>b. uint64NumberIfPossible b None)"
  "call_defaultCast ext PP_int64NumberIfPossible fb =
     with_bytes fb (\<lambda>b. int64NumberIfPossible b None)"
  by (cases fb; simp add: call_defaultCast_def with_bytes_def as_number_def)+

lemma with_bytes_if:
  "with_bytes fb (\<lambda>b. if c then f b else g b) = (if c then with_bytes fb f else with_bytes fb g)"
  by simp

lemma as_number_if: "as_number (if c then x else y) = (if c then as_number x else as_number y)"
  by simp

lemma decoded_cell:
  "(case fb of None \<Rightarrow> Inl e | Some b \<Rightarrow> Inr (f b, p1)) =
   andThen (case fb of None \<Rightarrow> Inl e | Some b \<Rightarrow> Inr (f b)) (\<lambda>v. Inr (v, p1))"
  by (cases fb) simp_all

lemma column_value_spec:
  assumes "cast cfg = None"
  shows "column_value decode ext cfg field isNull p = spec_cell decode ext cfg field isNull p"
proof (cases isNull)
  case True
  with assms show ?thesis by (simp add: column_value_def spec_cell_def split: prod.split)
next
  case False
  show ?thesis
    using assms False
    by (cases "columnType field")
      (simp_all add: column_value_def spec_cell_def readCodeFor_def spec_raw_cell_def
        spec_width_def spec_decode_def read_cell_def readBuffer_def call_defaultCast_bytes
        with_bytes_if as_number_if spec_date_def spec_decimal_def eval_encoding_def
        advance_def Let_def decoded_cell cong: option.case_cong)
qed

lemma spec_columns_row:
  "cast cfg = None \<Longrightarrow>
   spec_columns decode ext cfg bm k cols p = spec_row decode ext cfg bm k cols p"
  by (induction cols arbitrary: k p) (simp_all add: column_value_spec)

lemma andThen_not_null: "(\<And>x. f x \<noteq> Inr Null) \<Longrightarrow> andThen r f \<noteq> Inr Null"
  by (cases r) (simp_all add: andThen_def)

lemma with_bytes_not_null: "(\<And>b. f b \<noteq> Inr Null) \<Longrightarrow> with_bytes fb f \<noteq> Inr Null"
  by (cases fb) (simp_all add: with_bytes_def)

lemma as_number_not_null: "as_number r \<noteq> Inr Null"
  by (simp add: as_number_def andThen_not_null)

lemma uint8_not_null: "uint8 b off \<noteq> Null"
  by (simp add: uint8_def split: option.split)

lemma uint16_not_null: "uint16 b off \<noteq> Inr Null"
  by (simp add: uint16_def andThen_not_null)

lemma andThen_InrE:
  assumes "andThen r f = Inr v"
  obtains x where "r = Inr x" "f x = Inr v"
  using assms by (cases r) (simp_all add: andThen_def)

lemma dateTime_not_null: "dateTime b offs len \<noteq> Inr Null"
  by (auto simp add: dateTime_def Let_def split: prod.splits if_splits elim!: andThen_InrE)

lemma dateTimeString_not_null: "dateTimeString b offs len d \<noteq> Inr Null"
  by (auto simp add: dateTimeString_def Let_def split: prod.splits if_splits elim!: andThen_InrE)

lemma timeString_not_null: "timeString b offs len \<noteq> Inr Null"
  by (auto simp add: timeString_def time'_def Let_def split: prod.splits if_splits
      elim!: andThen_InrE)

lemma long_not_null:
  "uint64Number b offs \<noteq> Inr Null" "int64Number b offs \<noteq> Inr Null"
  "uint64String b offs \<noteq> Inr Null" "int64String b offs \<noteq> Inr Null"
  "uint64NumberIfPossible b offs \<noteq> Inr Null" "int64NumberIfPossible b offs \<noteq> Inr Null"
  by (auto simp add: uint64Number_def int64Number_def uint64String_def int64String_def
      uint64NumberIfPossible_def int64NumberIfPossible_def Let_def
      split: if_splits elim!: andThen_InrE)

lemma float_not_null:
  assumes "numeric_ext ext"
  shows "float32 ext b off \<noteq> Inr Null" "float64 ext b off \<noteq> Inr Null"
    "ext ''floatAscii'' b \<noteq> Inr Null"
  using assms by (auto simp add: numeric_ext_def float32_def float64_def)

lemma spec_decode_not_null:
  assumes "\<not> may_decode_null (columnType field)" "numeric_ext ext"
  shows "spec_decode decode ext cfg field fb \<noteq> Inr Null"
proof (cases "columnType field")
  case DECIMAL
  then show ?thesis
    using float_not_null(3) [OF assms(2)]
    by (auto simp add: spec_decode_def spec_decimal_def with_bytes_def split: option.split)
next
  case NEWDECIMAL
  then show ?thesis
    using float_not_null(3) [OF assms(2)]
    by (auto simp add: spec_decode_def spec_decimal_def with_bytes_def split: option.split)
next
  case (OtherType x)
  then show ?thesis by (simp add: spec_decode_def split: option.split)
qed (use assms in \<open>auto simp add: spec_decode_def spec_date_def may_decode_null_def
      with_bytes_def uint8_not_null uint16_not_null as_number_not_null dateTime_not_null
      dateTimeString_not_null timeString_not_null long_not_null float_not_null
      split: option.splits if_splits\<close>)

lemma spec_cell_null:
  assumes "spec_cell decode ext cfg field isNull p = Inr (v, p1)"
  shows "isNull \<Longrightarrow> v = Null \<and> p1 = p"
    and "\<not> may_decode_null (columnType field) \<Longrightarrow> numeric_ext ext \<Longrightarrow> v = Null \<Longrightarrow> isNull"
proof -
  show "v = Null \<and> p1 = p" if "isNull"
    using assms that by (simp add: spec_cell_def)
  show "isNull" if n: "\<not> may_decode_null (columnType field)" "numeric_ext ext" and v: "v = Null"
  proof (rule ccontr)
    assume "\<not> isNull"
    with assms v obtain fb where "spec_decode decode ext cfg field fb = Inr Null"
      by (auto simp add: spec_cell_def andThen_def split: sum.splits prod.splits)
    with spec_decode_not_null [OF n] show False by blast
  qed
qed

lemma spec_row_null:
  assumes "spec_row decode ext cfg bm k cols p = Inr (row, p')"
  shows "length row = length cols \<and>
         (\<forall>i<length cols.
            (spec_null_bit bm (k + i) \<longrightarrow> row ! i = Null) \<and>
            (numeric_ext ext \<and> \<not> may_decode_null (columnType (cols ! i)) \<longrightarrow>
               (row ! i = Null) = spec_null_bit bm (k + i)))"
  using assms
proof (induction cols arbitrary: k p row)
  case Nil
  then show ?case by simp
next
  case (Cons field rest)
  from Cons.prems obtain v p1 vs where
    cell: "spec_cell decode ext cfg field (spec_null_bit bm k) p = Inr (v, p1)" and
    rest: "spec_row decode ext cfg bm (Suc k) rest p1 = Inr (vs, p')" and
    row: "row = v # vs"
    by (auto simp add: andThen_def split: sum.splits prod.splits)
  note ih = Cons.IH [OF rest]
  have "(spec_null_bit bm (k + i) \<longrightarrow> row ! i = Null) \<and>
        (numeric_ext ext \<and> \<not> may_decode_null (columnType ((field # rest) ! i)) \<longrightarrow>
           (row ! i = Null) = spec_null_bit bm (k + i))"
    if "i < length (field # rest)" for i
  proof (cases i)
    case 0
    with spec_cell_null [OF cell] row show ?thesis by auto
  next
    case (Suc j)
    with that ih row show ?thesis by simp
  qed
  with ih row show ?case by simp
qed

lemma spec_row_all_null:
  "\<forall>i<length cols. spec_null_bit bm (k + i) \<Longrightarrow>
   spec_row decode ext cfg bm k cols p = Inr (replicate (length cols) Null, p)"
proof (induction cols arbitrary: k)
  case Nil
  show ?case by simp
next
  case (Cons field rest)
  have here: "spec_null_bit bm k" using Cons.prems by force
  have "\<forall>i<length rest. spec_null_bit bm (Suc k + i)"
  proof (intro allI impI)
    fix i assume "i < length rest"
    then have "Suc i < length (field # rest)" by simp
    with Cons.prems have "spec_null_bit bm (k + Suc i)" by blast
    then show "spec_null_bit bm (Suc k + i)" by simp
  qed
  from Cons.IH [OF this] here show ?case by (simp add: spec_cell_def)
qed

lemma numeric_no_ext: "numeric_ext no_ext"
  by (simp add: numeric_ext_def no_ext_def)

lemma json_row:
  "BinaryRow latin1 no_ext plain_config [json_column] (Packet 0 [3, 0, 0, 1, 0, 0, 251] 0 7) =
     Inr ([Null], (Packet 0 [3, 0, 0, 1, 0, 0, 251] 0 7)\<lparr>offset := 7\<rparr>)"
  by code_simp

lemma geometry_row:
  "BinaryRow latin1 no_ext plain_config [geometry_column] (Packet 0 [3, 0, 0, 1, 0, 0, 0] 0 7) =
     Inr ([Null], (Packet 0 [3, 0, 0, 1, 0, 0, 0] 0 7)\<lparr>offset := 7\<rparr>)"
  by code_simp

lemma seven_row:
  "BinaryRow latin1 no_ext seven_config S8_fields S8_packet =
     Inr ([Num (Fin 7), Num (Fin 7)], S8_packet\<lparr>offset := 7\<rparr>)"
  by code_simp

lemma clear_bits:
  "\<not> spec_null_bit (null_bitmask (Packet 0 [2, 0, 0, 1, 0, 0] 0 6) 1) 0"
  "\<not> spec_null_bit (null_bitmask (Packet 0 [3, 0, 0, 1, 0, 0, 251] 0 7) 1) 0"
  "\<not> spec_null_bit (null_bitmask (Packet 0 [3, 0, 0, 1, 0, 0, 0] 0 7) 1) 0"
  "spec_null_bit (null_bitmask S8_packet 2) 1"
  "\<not> spec_null_bit (null_bitmask S8_packet 2) 0"
  by code_simp+

lemma sample_row:
  "BinaryRow latin1 sample_ext plain_config sample_fields sample_packet =
     Inr ([Num (Fin 42), Null, Num (Fin 1)], sample_packet\<lparr>offset := 11\<rparr>)"
  by code_simp

lemma sample_bits:
  "spec_null_bit (null_bitmask sample_packet (length sample_fields)) 1"
  "\<not> spec_null_bit (null_bitmask sample_packet (length sample_fields)) 2"
  by code_simp+

lemma numeric_sample_ext: "numeric_ext sample_ext"
  by (auto simp add: numeric_ext_def sample_ext_def)

text \<open>
  C5 (as stated, refuted).  A row of two columns has a null bitmap of one byte, not of
  \<open>\<lceil>(2 + 9) / 8\<rceil> = 2\<close>: on the payload \<open>00 08 2A\<close> the parser reads the status byte and
  one bitmap byte, decodes the first column from \<open>2A\<close> and leaves the cursor at the end of
  the packet.  A column may be null though its null bit is clear: a column of type
  \<open>NULL\<close> always is, a \<open>JSON\<close> column whose cell is the length-coded NULL is, and a
  \<open>GEOMETRY\<close> column whose cell is empty is.  And under a cast function that answers 7
  for every field the second column of that payload is 7, though its null bit is set.
\<close>

theorem C5_bitmap_length_counterexample:
  "nullBitmapLength 2 = 1 \<and> ((2::nat) + 9 + 7) div 8 = 2 \<and>
   BinaryRow latin1 no_ext plain_config S8_fields S8_packet =
     Inr ([Num (Fin 42), Null], S8_packet\<lparr>offset := 7\<rparr>) \<and>
   \<not> spec_null_bit (null_bitmask (Packet 0 [2, 0, 0, 1, 0, 0] 0 6) 1) 0 \<and>
   BinaryRow latin1 no_ext plain_config [null_column] (Packet 0 [2, 0, 0, 1, 0, 0] 0 6) =
     Inr ([Null], (Packet 0 [2, 0, 0, 1, 0, 0] 0 6)\<lparr>offset := 6\<rparr>) \<and>
   \<not> spec_null_bit (null_bitmask (Packet 0 [3, 0, 0, 1, 0, 0, 251] 0 7) 1) 0 \<and>
   BinaryRow latin1 no_ext plain_config [json_column] (Packet 0 [3, 0, 0, 1, 0, 0, 251] 0 7) =
     Inr ([Null], (Packet 0 [3, 0, 0, 1, 0, 0, 251] 0 7)\<lparr>offset := 7\<rparr>) \<and>
   \<not> spec_null_bit (null_bitmask (Packet 0 [3, 0, 0, 1, 0, 0, 0] 0 7) 1) 0 \<and>
   BinaryRow latin1 no_ext plain_config [geometry_column] (Packet 0 [3, 0, 0, 1, 0, 0, 0] 0 7) =
     Inr ([Null], (Packet 0 [3, 0, 0, 1, 0, 0, 0] 0 7)\<lparr>offset := 7\<rparr>) \<and>
   spec_null_bit (null_bitmask S8_packet 2) 1 \<and>
   BinaryRow latin1 no_ext seven_config S8_fields S8_packet =
     Inr ([Num (Fin 7), Num (Fin 7)], S8_packet\<lparr>offset := 7\<rparr>)"
proof -
  have "nullBitmapLength 2 = 1" by (simp add: nullBitmapLength_def)
  then show ?thesis
    using S8_row null_column_row json_row geometry_row seven_row clear_bits by simp
qed

text \<open>
  C5 (amended).  For every column count \<open>n\<close> the compiled parser consumes the status byte
  and then \<open>\<lfloor>(n + 9) / 8\<rfloor>\<close> bitmap bytes before any cell, and reads the columns in order,
  testing for column \<open>k\<close> bit \<open>(k + 2) mod 8\<close> of bitmap byte \<open>(k + 2) div 8\<close>.  When no
  cast function is in force the row is the one the protocol's table gives: a column
  whose null bit is set is \<open>null\<close> and occupies nothing, any other occupies the bytes of
  its type and is their default decoding; a row whose null bits are all set leaves the
  cursor right after the bitmap.  A parsed row has one value for each column, every
  column whose null bit is set is \<open>null\<close>, and a column of a type other than \<open>NULL\<close>,
  \<open>GEOMETRY\<close> and \<open>JSON\<close> is \<open>null\<close> only if its null bit is set.
\<close>

theorem C5_binary_row_amended:
  "BinaryRow decode ext cfg cols p =
     spec_columns decode ext cfg (null_bitmask p (length cols)) 0 cols
       (advance p (1 + (length cols + 9) div 8)) \<and>
   (cast cfg = None \<longrightarrow>
      BinaryRow decode ext cfg cols p =
        spec_row decode ext cfg (null_bitmask p (length cols)) 0 cols
          (advance p (1 + (length cols + 9) div 8)) \<and>
      ((\<forall>k<length cols. spec_null_bit (null_bitmask p (length cols)) k) \<longrightarrow>
         BinaryRow decode ext cfg cols p =
           Inr (replicate (length cols) Null, advance p (1 + (length cols + 9) div 8))) \<and>
      (BinaryRow decode ext cfg cols p = Inr (row, p') \<longrightarrow>
         length row = length cols \<and>
         (\<forall>k<length cols.
            (spec_null_bit (null_bitmask p (length cols)) k \<longrightarrow> row ! k = Null) \<and>
            (numeric_ext ext \<and> \<not> may_decode_null (columnType (cols ! k)) \<longrightarrow>
               (row ! k = Null) = spec_null_bit (null_bitmask p (length cols)) k))))"
proof -
  let ?bm = "null_bitmask p (length cols)"
  let ?p0 = "advance p (1 + (length cols + 9) div 8)"
  have head: "BinaryRow decode ext cfg cols p = spec_columns decode ext cfg ?bm 0 cols ?p0"
    by (rule BinaryRow_spec)
  have "BinaryRow decode ext cfg cols p = spec_row decode ext cfg ?bm 0 cols ?p0 \<and>
        ((\<forall>k<length cols. spec_null_bit ?bm k) \<longrightarrow>
           BinaryRow decode ext cfg cols p = Inr (replicate (length cols) Null, ?p0)) \<and>
        (BinaryRow decode ext cfg cols p = Inr (row, p') \<longrightarrow>
           length row = length cols \<and>
           (\<forall>k<length cols.
              (spec_null_bit ?bm k \<longrightarrow> row ! k = Null) \<and>
              (numeric_ext ext \<and> \<not> may_decode_null (columnType (cols ! k)) \<longrightarrow>
                 (row ! k = Null) = spec_null_bit ?bm k)))"
    if c: "cast cfg = None"
  proof -
    have r: "BinaryRow decode ext cfg cols p = spec_row decode ext cfg ?bm 0 cols ?p0"
      using head spec_columns_row [OF c] by simp
    have a: "BinaryRow decode ext cfg cols p = Inr (replicate (length cols) Null, ?p0)"
      if "\<forall>k<length cols. spec_null_bit ?bm k"
      using spec_row_all_null [of cols ?bm 0 decode ext cfg ?p0] that r by simp
    have n: "length row = length cols \<and>
           (\<forall>k<length cols.
              (spec_null_bit ?bm k \<longrightarrow> row ! k = Null) \<and>
              (numeric_ext ext \<and> \<not> may_decode_null (columnType (cols ! k)) \<longrightarrow>
                 (row ! k = Null) = spec_null_bit ?bm k))"
      if "BinaryRow decode ext cfg cols p = Inr (row, p')"
      using spec_row_null [of decode ext cfg ?bm 0 cols ?p0 row p'] that r by simp
    from r a n show ?thesis by blast
  qed
  with head show ?thesis by blast
qed

theorem C5_binary_row_amended_witness:
  "cast plain_config = None \<and>
   BinaryRow latin1 sample_ext plain_config sample_fields sample_packet =
     Inr ([Num (Fin 42), Null, Num (Fin 1)], sample_packet\<lparr>offset := 11\<rparr>) \<and>
   length [Num (Fin 42), Null, Num (Fin 1)] = length sample_fields \<and>
   spec_null_bit (null_bitmask sample_packet (length sample_fields)) 1 \<and>
   [Num (Fin 42), Null, Num (Fin 1)] ! 1 = Null \<and>
   numeric_ext sample_ext \<and> \<not> may_decode_null (columnType (sample_fields ! 2)) \<and>
   \<not> spec_null_bit (null_bitmask sample_packet (length sample_fields)) 2 \<and>
   [Num (Fin 42), Null, Num (Fin 1)] ! 2 \<noteq> Null"
proof -
  have c: "cast plain_config = None" by (simp add: plain_config_def)
  have t: "\<not> may_decode_null (columnType (sample_fields ! 2))"
    by (simp add: sample_fields_def S8_fields_def may_decode_null_def)
  from C5_binary_row_amended [of latin1 sample_ext plain_config sample_fields sample_packet
      "[Num (Fin 42), Null, Num (Fin 1)]" "sample_packet\<lparr>offset := 11\<rparr>"] c sample_row
  have "length [Num (Fin 42), Null, Num (Fin 1)] = length sample_fields" by blast
  with c t sample_row sample_bits numeric_sample_ext show ?thesis by simp
qed

end
